theory Spec2Isabelle
  imports Main "HOL-Library.Word"
begin

unbundle bit_operations_syntax

section \<open>Data model of \<open>p64_counter.c\<close>\<close>

type_synonym u32 = "32 word"
type_synonym u64 = "64 word"
type_synonym i32 = "32 word"  \<comment> \<open>an \<open>int32_t\<close>, read with \<open>sint\<close>\<close>
type_synonym p64_counter_t = u32

text \<open>
  The struct \<open>p64_cntdomain\<close>. The flexible array \<open>free[]\<close> holds the bitmap words and,
  behind them, the shared counters (\<open>shared = &free[nwords]\<close>). Creation works on the
  block as one array, as the C code does through \<open>free[]\<close>, and an index outside the
  block is a fault; the domain it returns keeps the two regions as two lists, and in the
  other functions an index outside its region is a fault of the model. An entry of
  \<open>perthread\<close> is \<open>None\<close> for a NULL pointer and \<open>Some\<close> of the private counter array
  otherwise; the length of the list is the array bound \<open>MAXTHREADS\<close>.
\<close>

record cntdomain =
  ncounters :: u32
  use_hp :: bool
  shared :: "u64 list"
  perthread :: "u64 list option list"
  free :: "u64 list"

text \<open>The thread-local struct \<open>pth\<close>, initially \<open>{ -1, 0 }\<close>.\<close>

record pth =
  tidx :: i32
  count :: u32

definition pth_init :: pth where
  "pth_init = \<lparr>tidx = - 1, count = 0\<rparr>"

text \<open>
  What a call does to its collaborators: a message handed to \<open>report_error\<close>, a private
  array handed to one of the two reclamation engines, a \<open>doze\<close> between two attempts, a
  thread index given back with \<open>p64_idx_free\<close>.
\<close>

datatype event =
  Report string
| Hazptr_retire "u64 list"
| Qsbr_retire "u64 list"
| Doze
| Idx_free i32

text \<open>
  A call either returns or runs into undefined behaviour of C: it dereferences a NULL
  private array or indexes an array outside its bounds.
\<close>

datatype fault = Null_deref | Out_of_bounds

datatype 'a outcome = Returns 'a | Fault fault

definition BITSPERWORD :: u32 where
  "BITSPERWORD = 64"

text \<open>
  Modelled from the spec: the header \<open>p64_counter.h\<close> is not among the sources. The
  identifier 0 is reserved and is the invalid sentinel; the only recognised creation
  flag selects the hazard-pointer strategy and is taken to be bit 0.
\<close>

definition P64_COUNTER_INVALID :: p64_counter_t where
  "P64_COUNTER_INVALID = 0"

definition P64_COUNTER_F_HP :: u32 where
  "P64_COUNTER_F_HP = 1"

definition VALID_FLAGS :: u32 where
  "VALID_FLAGS = P64_COUNTER_F_HP"

text \<open>\<open>cntd->perthread[t]\<close> for a signed index: outside the array it is a fault.\<close>

definition perthread_at :: "cntdomain \<Rightarrow> i32 \<Rightarrow> u64 list option outcome" where
  "perthread_at cntd t =
     (if 0 \<le> sint t \<and> nat (sint t) < length (perthread cntd)
      then Returns (perthread cntd ! nat (sint t))
      else Fault Out_of_bounds)"

section \<open>Domain creation\<close>

text \<open>
  The loop that marks all counters free. Its counter \<open>b\<close> is a \<open>uint32_t\<close>, and
  \<open>b + BITSPERWORD\<close> wraps, so the loop is a partial function: \<open>None\<close> is a run that
  never leaves the loop. The list \<open>fr\<close> is the array \<open>free[]\<close> up to the end of the
  allocated block, the words of the shared counters included.
\<close>

partial_function (option) mark_free :: "u32 \<Rightarrow> u32 \<Rightarrow> u64 list \<Rightarrow> u64 list outcome option" where
  "mark_free b n fr =
     (if b < n then
        (if b + BITSPERWORD \<le> n then
           (if unat (b div BITSPERWORD) < length fr
            then mark_free (b + BITSPERWORD) n (fr[unat (b div BITSPERWORD) := NOT 0])
            else Some (Fault Out_of_bounds))
         else
           (if unat (b div BITSPERWORD) < length fr
            then mark_free (b + 1) n
                   (fr[unat (b div BITSPERWORD) :=
                         fr ! unat (b div BITSPERWORD) OR push_bit (unat (b mod BITSPERWORD)) 1])
            else Some (Fault Out_of_bounds)))
      else Some (Returns fr))"

declare mark_free.simps [code]

text \<open>
  \<open>p64_cntdomain_alloc\<close>. \<open>MAXTHREADS\<close> (from \<open>build_config.h\<close>, not among the sources)
  is a parameter, and so is the answer of \<open>p64_malloc\<close>. The block holds
  \<open>nwords + ncounters\<close> words, a sum of two \<open>uint32_t\<close> (the product with
  \<open>sizeof(uint64_t)\<close> is taken in \<open>size_t\<close>, 64 bits wide like the \<open>unsigned long\<close> of
  \<open>__builtin_ctzl\<close>, and does not wrap). The marking loop and the statement that
  reserves counter 0 index the whole block through \<open>free[]\<close>; the bitmap of the domain
  is the first \<open>nwords\<close> words of the block and the shared counters are the rest.
\<close>

definition p64_cntdomain_alloc ::
  "nat \<Rightarrow> u32 \<Rightarrow> u32 \<Rightarrow> bool \<Rightarrow> (cntdomain option \<times> event list) outcome option" where
  "p64_cntdomain_alloc MAXTHREADS ncounters0 flags malloc_ok =
     (if flags AND NOT VALID_FLAGS \<noteq> 0 then Some (Returns (None, [Report ''invalid flags'']))
      else
        let ncounters1 = ncounters0 + 1;
            nwords = (ncounters1 + BITSPERWORD - 1) div BITSPERWORD;
            block = replicate (unat (nwords + ncounters1)) (0 :: u64)
        in if malloc_ok then
             (case mark_free 0 ncounters1 block of
                None \<Rightarrow> None
              | Some (Fault f) \<Rightarrow> Some (Fault f)
              | Some (Returns fr) \<Rightarrow>
                  if 0 < length fr then
                    Some (Returns (Some \<lparr>ncounters = ncounters1,
                                          use_hp = (flags AND P64_COUNTER_F_HP \<noteq> 0),
                                          shared = drop (unat nwords) (fr[0 := fr ! 0 AND NOT 1]),
                                          perthread = replicate MAXTHREADS None,
                                          free = take (unat nwords) (fr[0 := fr ! 0 AND NOT 1])\<rparr>, []))
                  else Some (Fault Out_of_bounds))
           else Some (Returns (None, [])))"

section \<open>Thread registration\<close>

text \<open>
  \<open>p64_cntdomain_register\<close>. The answers of \<open>p64_idx_alloc\<close> (asked only when the
  count was 0) and of \<open>p64_malloc\<close> are parameters.
\<close>

definition p64_cntdomain_register ::
  "cntdomain \<Rightarrow> pth \<Rightarrow> i32 \<Rightarrow> bool \<Rightarrow> (pth \<times> cntdomain \<times> event list) outcome" where
  "p64_cntdomain_register cntd p idx malloc_ok =
     (let p1 = (if count p = 0 then p\<lparr>tidx := idx, count := count p + 1\<rparr>
                else p\<lparr>count := count p + 1\<rparr>)
      in case perthread_at cntd (tidx p1) of
           Fault f \<Rightarrow> Fault f
         | Returns (Some c) \<Rightarrow> Returns (p1, cntd, [Report ''thread not registered''])
         | Returns None \<Rightarrow>
             if malloc_ok then
               Returns (p1,
                 cntd\<lparr>perthread := (perthread cntd)
                         [nat (sint (tidx p1)) := Some (replicate (unat (ncounters cntd)) 0)]\<rparr>,
                 [])
             else Returns (p1, cntd, [Report ''failed to allocate private stash'']))"

text \<open>
  The merge loop of \<open>p64_cntdomain_unregister\<close>: \<open>val\<close> is declared \<open>uint32_t\<close>, so it
  holds the low half of \<open>counters[i]\<close>.
\<close>

function merge_counters :: "nat \<Rightarrow> nat \<Rightarrow> u64 list \<Rightarrow> u64 list \<Rightarrow> (u64 list \<times> u64 list) outcome" where
  "merge_counters i n counters sh =
     (if i < n then
        (if i < length counters then
           (let val = (ucast (counters ! i) :: u32) in
            if val \<noteq> 0 then
              (if i < length sh
               then merge_counters (Suc i) n (counters[i := 0]) (sh[i := sh ! i + ucast val])
               else Fault Out_of_bounds)
            else merge_counters (Suc i) n counters sh)
         else Fault Out_of_bounds)
      else Returns (counters, sh))"
  by pat_completeness auto
termination
  by (relation "measure (\<lambda>(i, n, counters, sh). n - i)") auto

text \<open>
  The retire loop: \<open>accepts k\<close> is the answer of the reclamation engine to attempt
  number \<open>k\<close>; the result is the number of refused attempts, \<open>None\<close> when every attempt
  is refused.
\<close>

partial_function (option) retire_loop :: "(nat \<Rightarrow> bool) \<Rightarrow> nat \<Rightarrow> nat option" where
  "retire_loop accepts k = (if accepts k then Some k else retire_loop accepts (Suc k))"

declare retire_loop.simps [code]

definition p64_cntdomain_unregister ::
  "cntdomain \<Rightarrow> pth \<Rightarrow> (nat \<Rightarrow> bool) \<Rightarrow> (pth \<times> cntdomain \<times> event list) outcome option" where
  "p64_cntdomain_unregister cntd p accepts =
     (if count p = 0 then Some (Returns (p, cntd, [Report ''thread not registered'']))
      else case perthread_at cntd (tidx p) of
        Fault f \<Rightarrow> Some (Fault f)
      | Returns None \<Rightarrow> Some (Returns (p, cntd, [Report ''thread not registered'']))
      | Returns (Some counters) \<Rightarrow>
          (case merge_counters 0 (unat (ncounters cntd)) counters (shared cntd) of
             Fault f \<Rightarrow> Some (Fault f)
           | Returns (counters1, shared1) \<Rightarrow>
               (case retire_loop accepts 0 of
                  None \<Rightarrow> None
                | Some k \<Rightarrow>
                    let cntd1 = cntd\<lparr>shared := shared1,
                                      perthread := (perthread cntd)[nat (sint (tidx p)) := None]\<rparr>;
                        evs = replicate k Doze @
                              [if use_hp cntd then Hazptr_retire counters1
                               else Qsbr_retire counters1];
                        p1 = p\<lparr>count := count p - 1\<rparr>
                    in if count p1 = 0
                       then Some (Returns (p1\<lparr>tidx := - 1\<rparr>, cntd1, evs @ [Idx_free (tidx p)]))
                       else Some (Returns (p1, cntd1, evs)))))"

section \<open>The slot allocator\<close>

text \<open>
  \<open>__builtin_ctzl\<close>: the number of trailing zero bits of a 64-bit word (the compiler
  leaves it undefined for 0, which the caller excludes).
\<close>

definition builtin_ctzl :: "u64 \<Rightarrow> nat" where
  "builtin_ctzl w = length (takeWhile (\<lambda>n. \<not> bit w n) [0..<64])"

text \<open>
  The inner loop of \<open>p64_counter_alloc\<close> on bitmap word \<open>i\<close>, with \<open>w\<close> the value last
  loaded: the compare-and-exchange succeeds when the word still holds \<open>w\<close>, and reloads
  \<open>w\<close> otherwise. The result is the claimed bit and the new bitmap, or \<open>None\<close> when the
  word has no free bit.
\<close>

function claim_bit :: "u64 list \<Rightarrow> nat \<Rightarrow> u64 \<Rightarrow> (nat \<times> u64 list) option" where
  "claim_bit fr i w =
     (if w \<noteq> 0 then
        (let b = builtin_ctzl w in
         if fr ! i = w then Some (b, fr[i := w AND NOT (push_bit b 1)])
         else claim_bit fr i (fr ! i))
      else None)"
  by pat_completeness auto
termination
  by (relation "measure (\<lambda>(fr, i, w). if fr ! i = w then 0 else 1)") auto

text \<open>
  The outer loop of \<open>p64_counter_alloc\<close>; its counter \<open>i\<close> stays below \<open>nwords\<close> and
  never wraps, so it is a natural number here.
\<close>

function scan_words :: "cntdomain \<Rightarrow> nat \<Rightarrow> nat \<Rightarrow> (p64_counter_t \<times> cntdomain) outcome" where
  "scan_words cntd nwords i =
     (if i < nwords then
        (if i < length (free cntd) then
           (case claim_bit (free cntd) i (free cntd ! i) of
              Some (b, fr1) \<Rightarrow>
                (let cntid = (of_nat i * BITSPERWORD + of_nat b :: u32) in
                 if unat cntid < length (shared cntd)
                 then Returns (cntid, cntd\<lparr>shared := (shared cntd)[unat cntid := 0], free := fr1\<rparr>)
                 else Fault Out_of_bounds)
            | None \<Rightarrow> scan_words cntd nwords (Suc i))
         else Fault Out_of_bounds)
      else Returns (P64_COUNTER_INVALID, cntd))"
  by pat_completeness auto
termination
  by (relation "measure (\<lambda>(cntd, nwords, i). nwords - i)") auto

declare scan_words.simps [simp del] claim_bit.simps [simp del]

definition p64_counter_alloc :: "cntdomain \<Rightarrow> (p64_counter_t \<times> cntdomain) outcome" where
  "p64_counter_alloc cntd =
     scan_words cntd (unat ((ncounters cntd + BITSPERWORD - 1) div BITSPERWORD)) 0"

definition p64_counter_free :: "cntdomain \<Rightarrow> p64_counter_t \<Rightarrow> (cntdomain \<times> event list) outcome" where
  "p64_counter_free cntd cntid =
     (if cntid = P64_COUNTER_INVALID \<or> cntid \<ge> ncounters cntd
      then Returns (cntd, [Report ''invalid counter''])
      else
        let i = unat (cntid div BITSPERWORD);
            m = (push_bit (unat (cntid mod BITSPERWORD)) 1 :: u64)
        in if i < length (free cntd) then
             (if free cntd ! i AND m \<noteq> 0
              then Returns (cntd, [Report ''counter already free''])
              else Returns (cntd\<lparr>free := (free cntd)[i := free cntd ! i OR m]\<rparr>, []))
           else Fault Out_of_bounds)"

section \<open>Add, read and reset\<close>

definition p64_counter_add ::
  "cntdomain \<Rightarrow> pth \<Rightarrow> p64_counter_t \<Rightarrow> u64 \<Rightarrow> (cntdomain \<times> event list) outcome" where
  "p64_counter_add cntd p cntid val =
     (if count p = 0 then Returns (cntd, [Report ''thread not registered''])
      else if cntid = P64_COUNTER_INVALID \<or> cntid \<ge> ncounters cntd
      then Returns (cntd, [Report ''invalid counter''])
      else case perthread_at cntd (tidx p) of
        Fault f \<Rightarrow> Fault f
      | Returns None \<Rightarrow> Fault Null_deref
      | Returns (Some counters) \<Rightarrow>
          if unat cntid < length counters then
            Returns (cntd\<lparr>perthread := (perthread cntd)
                       [nat (sint (tidx p)) :=
                          Some (counters[unat cntid := counters ! unat cntid + val])]\<rparr>, [])
          else Fault Out_of_bounds)"

text \<open>
  Modelled from the spec: \<open>p64_hazptr_acquire\<close> (in \<open>p64_hazardptr.c\<close>, not among the
  sources) returns the pointer held by the slot, or null, protected against reclamation.
\<close>

definition p64_hazptr_acquire :: "u64 list option \<Rightarrow> u64 list option" where
  "p64_hazptr_acquire slot = slot"

text \<open>The traversal of \<open>p64_counter_read\<close> over the slots \<open>t = 0, ..., MAXTHREADS - 1\<close>.\<close>

fun sum_private :: "bool \<Rightarrow> u64 list option list \<Rightarrow> nat \<Rightarrow> u64 \<Rightarrow> u64 outcome" where
  "sum_private hp [] cntid acc = Returns acc"
| "sum_private hp (slot # slots) cntid acc =
     (case (if \<not> hp then slot else p64_hazptr_acquire slot) of
        None \<Rightarrow> sum_private hp slots cntid acc
      | Some counters \<Rightarrow>
          if cntid < length counters
          then sum_private hp slots cntid (acc + counters ! cntid)
          else Fault Out_of_bounds)"

text \<open>
  The consistency loop of \<open>p64_counter_read\<close>. Between the traversal of iteration \<open>k\<close> and
  the second load of the shared counter the other threads do \<open>env k\<close> to the domain. The
  result is the sum and the number of iterations; \<open>None\<close> is a run that never leaves the
  loop.
\<close>

partial_function (option) read_loop ::
  "(nat \<Rightarrow> cntdomain \<Rightarrow> cntdomain) \<Rightarrow> nat \<Rightarrow> cntdomain \<Rightarrow> nat \<Rightarrow> (u64 \<times> nat) outcome option" where
  "read_loop env k cntd cntid =
     (if cntid < length (shared cntd) then
        (case sum_private (use_hp cntd) (perthread cntd) cntid (shared cntd ! cntid) of
           Fault f \<Rightarrow> Some (Fault f)
         | Returns acc \<Rightarrow>
             (if cntid < length (shared (env k cntd)) then
                (if shared cntd ! cntid \<noteq> shared (env k cntd) ! cntid
                 then read_loop env (Suc k) (env k cntd) cntid
                 else Some (Returns (acc, Suc k)))
              else Some (Fault Out_of_bounds)))
      else Some (Fault Out_of_bounds))"

declare read_loop.simps [code]

text \<open>
  \<open>p64_counter_read\<close> and \<open>p64_counter_reset\<close> with no other thread at work. The
  fences, the memory orders and the release of the hazard pointer change nothing that the
  model holds.
\<close>

definition p64_counter_read :: "cntdomain \<Rightarrow> p64_counter_t \<Rightarrow> (u64 \<times> event list) outcome option" where
  "p64_counter_read cntd cntid =
     (if cntid = P64_COUNTER_INVALID \<or> cntid \<ge> ncounters cntd
      then Some (Returns (0, [Report ''invalid counter'']))
      else case read_loop (\<lambda>k c. c) 0 cntd (unat cntid) of
        None \<Rightarrow> None
      | Some (Fault f) \<Rightarrow> Some (Fault f)
      | Some (Returns (acc, iterations)) \<Rightarrow> Some (Returns (acc, [])))"

definition p64_counter_reset :: "cntdomain \<Rightarrow> p64_counter_t \<Rightarrow> (cntdomain \<times> event list) outcome option" where
  "p64_counter_reset cntd cntid =
     (if cntid = P64_COUNTER_INVALID \<or> cntid \<ge> ncounters cntd
      then Some (Returns (cntd, [Report ''invalid counter'']))
      else case p64_counter_read cntd cntid of
        None \<Rightarrow> None
      | Some (Fault f) \<Rightarrow> Some (Fault f)
      | Some (Returns (cur, evs)) \<Rightarrow>
          if unat cntid < length (shared cntd) then
            Some (Returns (cntd\<lparr>shared := (shared cntd)
                             [unat cntid := shared cntd ! unat cntid - cur]\<rparr>, evs))
          else Some (Fault Out_of_bounds))"

section \<open>Well-formed domains and the value of a counter\<close>

text \<open>
  A domain is well formed when the shared counters and every published private array
  have \<open>ncounters\<close> entries and the bitmap has the \<open>nwords\<close> words that
  \<open>p64_counter_alloc\<close> scans.
\<close>

definition stash_ok :: "nat \<Rightarrow> u64 list option \<Rightarrow> bool" where
  "stash_ok n slot = (case slot of None \<Rightarrow> True | Some c \<Rightarrow> length c = n)"

definition nwords_of :: "cntdomain \<Rightarrow> nat" where
  "nwords_of cntd = unat ((ncounters cntd + BITSPERWORD - 1) div BITSPERWORD)"

definition wf_domain :: "cntdomain \<Rightarrow> bool" where
  "wf_domain cntd =
     (length (shared cntd) = unat (ncounters cntd) \<and>
      list_all (stash_ok (unat (ncounters cntd))) (perthread cntd) \<and>
      length (free cntd) = nwords_of cntd)"

text \<open>What the published private arrays hold for counter \<open>i\<close>, summed.\<close>

definition stash_value :: "nat \<Rightarrow> u64 list option \<Rightarrow> u64" where
  "stash_value i slot = (case slot of None \<Rightarrow> 0 | Some c \<Rightarrow> c ! i)"

definition stash_total :: "u64 list option list \<Rightarrow> nat \<Rightarrow> u64" where
  "stash_total slots i = sum_list (map (stash_value i) slots)"

section \<open>The bitmap as a set of free identifiers\<close>

text \<open>
  Identifier \<open>k\<close> is free when bit \<open>k mod 64\<close> of bitmap word \<open>k div 64\<close> is set.
\<close>

definition is_free :: "u64 list \<Rightarrow> nat \<Rightarrow> bool" where
  "is_free fr k = (k div 64 < length fr \<and> bit (fr ! (k div 64)) (k mod 64))"

text \<open>Clearing and setting the bit of identifier \<open>m\<close>.\<close>

definition clear_free :: "u64 list \<Rightarrow> nat \<Rightarrow> u64 list" where
  "clear_free fr m = fr[m div 64 := fr ! (m div 64) AND NOT (push_bit (m mod 64) 1)]"

definition set_free :: "u64 list \<Rightarrow> nat \<Rightarrow> u64 list" where
  "set_free fr m = fr[m div 64 := fr ! (m div 64) OR push_bit (m mod 64) 1]"

text \<open>
  The invariant of the allocator: the domain is well formed, \<open>ncounters + 63\<close> does not
  wrap, bit 0 is clear and no bit at or beyond \<open>ncounters\<close> is set.
\<close>

definition alloc_inv :: "cntdomain \<Rightarrow> bool" where
  "alloc_inv cntd =
     (wf_domain cntd \<and> unat (ncounters cntd) + 63 < 4294967296 \<and>
      \<not> is_free (free cntd) 0 \<and>
      list_all (\<lambda>k. \<not> is_free (free cntd) k)
        [unat (ncounters cntd)..<64 * length (free cntd)])"

section \<open>Sequences of allocator calls\<close>

text \<open>
  \<open>alloc_many n\<close> calls \<open>p64_counter_alloc\<close> \<open>n\<close> times and collects the identifiers;
  \<open>run_ops\<close> runs a sequence of \<open>p64_counter_alloc\<close> and \<open>p64_counter_free\<close> calls.
\<close>

fun alloc_many :: "nat \<Rightarrow> cntdomain \<Rightarrow> (p64_counter_t list \<times> cntdomain) outcome" where
  "alloc_many 0 cntd = Returns ([], cntd)"
| "alloc_many (Suc n) cntd =
     (case p64_counter_alloc cntd of
        Fault f \<Rightarrow> Fault f
      | Returns (cntid, cntd1) \<Rightarrow>
          (case alloc_many n cntd1 of
             Fault f \<Rightarrow> Fault f
           | Returns (ids, cntd2) \<Rightarrow> Returns (cntid # ids, cntd2)))"

datatype op = Alloc | Free p64_counter_t

fun run_ops :: "op list \<Rightarrow> cntdomain \<Rightarrow> cntdomain outcome" where
  "run_ops [] cntd = Returns cntd"
| "run_ops (Alloc # ops) cntd =
     (case p64_counter_alloc cntd of
        Fault f \<Rightarrow> Fault f
      | Returns (cntid, cntd1) \<Rightarrow> run_ops ops cntd1)"
| "run_ops (Free cntid # ops) cntd =
     (case p64_counter_free cntd cntid of
        Fault f \<Rightarrow> Fault f
      | Returns (cntd1, evs) \<Rightarrow> run_ops ops cntd1)"

section \<open>A small domain for examples\<close>

text \<open>
  A domain of capacity 1 with room for one thread: as created, after its counter 1 has
  been allocated, and after the thread with index 0 has registered.
\<close>

definition demo_fresh :: cntdomain where
  "demo_fresh =
     \<lparr>ncounters = 2, use_hp = False, shared = [0, 0], perthread = [None], free = [2]\<rparr>"

definition demo_allocated :: cntdomain where
  "demo_allocated =
     \<lparr>ncounters = 2, use_hp = False, shared = [0, 0], perthread = [None], free = [0]\<rparr>"

definition demo_registered :: cntdomain where
  "demo_registered =
     \<lparr>ncounters = 2, use_hp = False, shared = [0, 0], perthread = [Some [0, 0]], free = [0]\<rparr>"

definition demo_thread :: pth where
  "demo_thread = \<lparr>tidx = 0, count = 1\<rparr>"

text \<open>A domain of capacity 2 with room for one thread, as created.\<close>

definition small_fresh :: cntdomain where
  "small_fresh =
     \<lparr>ncounters = 3, use_hp = False, shared = [0, 0, 0], perthread = [None], free = [6]\<rparr>"

text \<open>A domain with five identifiers (capacity 4), given by its three arrays.\<close>

definition dom5 :: "u64 list \<Rightarrow> u64 list option list \<Rightarrow> u64 list \<Rightarrow> cntdomain" where
  "dom5 sh pt fr = \<lparr>ncounters = 5, use_hp = False, shared = sh, perthread = pt, free = fr\<rparr>"

section \<open>Facts about the example domain\<close>

lemma demo_create: "p64_cntdomain_alloc 1 1 0 True = Some (Returns (Some demo_fresh, []))"
  by code_simp

lemma demo_alloc: "p64_counter_alloc demo_fresh = Returns (1, demo_allocated)"
  by code_simp

lemma demo_register:
  "p64_cntdomain_register demo_allocated pth_init 0 True =
     Returns (demo_thread, demo_registered, [])"
  by code_simp

lemma demo_registered_wf: "wf_domain demo_registered"
  by code_simp

lemma small_create: "p64_cntdomain_alloc 1 2 0 True = Some (Returns (Some small_fresh, []))"
  by code_simp

section \<open>The retire loop\<close>

lemma retire_loop_from:
  "accepts k \<Longrightarrow> \<forall>j<k. \<not> accepts j \<Longrightarrow> j \<le> k \<Longrightarrow> retire_loop accepts j = Some k"
proof (induction "k - j" arbitrary: j)
  case 0
  then have "j = k" by simp
  with 0 show ?case by (subst retire_loop.simps) simp
next
  case (Suc d)
  then have lt: "j < k" and d: "d = k - Suc j" by simp_all
  from Suc.prems lt have "\<not> accepts j" by simp
  moreover have "retire_loop accepts (Suc j) = Some k"
    using Suc.hyps(1) [OF d Suc.prems(1,2)] lt by simp
  ultimately show ?case by (subst retire_loop.simps) simp
qed

lemma retire_loop_first:
  "accepts k \<Longrightarrow> \<forall>j<k. \<not> accepts j \<Longrightarrow> retire_loop accepts 0 = Some k"
  by (rule retire_loop_from) simp_all

section \<open>Read and reset\<close>

lemma sum_private_eq:
  "list_all (stash_ok n) slots \<Longrightarrow> i < n \<Longrightarrow>
   sum_private hp slots i acc = Returns (acc + stash_total slots i)"
proof (induction slots arbitrary: acc)
  case Nil
  then show ?case by (simp add: stash_total_def)
next
  case (Cons slot slots)
  then show ?case
    by (cases slot; cases hp)
      (simp_all add: stash_total_def stash_value_def stash_ok_def p64_hazptr_acquire_def
        add.assoc)
qed

lemma read_loop_once:
  assumes "i < length (shared cntd)"
    and "sum_private (use_hp cntd) (perthread cntd) i (shared cntd ! i) = Returns s"
    and "i < length (shared (env k cntd))"
    and "shared (env k cntd) ! i = shared cntd ! i"
  shows "read_loop env k cntd i = Some (Returns (s, Suc k))"
  using assms by (subst read_loop.simps) simp

lemma read_loop_returns: "\<exists>r. read_loop (\<lambda>k c. c) k cntd i = Some r"
  by (subst read_loop.simps) (simp split: outcome.split)

lemma p64_counter_read_returns: "\<exists>r. p64_counter_read cntd cntid = Some r"
proof -
  obtain r where "read_loop (\<lambda>k c. c) 0 cntd (unat cntid) = Some r"
    using read_loop_returns by blast
  then show ?thesis
    by (cases r) (auto simp: p64_counter_read_def)
qed

lemma valid_id_less:
  "cntid < ncounters cntd \<Longrightarrow> wf_domain cntd \<Longrightarrow> unat cntid < length (shared cntd)"
  by (simp add: word_less_nat_alt wf_domain_def)

lemma sum_private_wf:
  assumes "wf_domain cntd" and "cntid < ncounters cntd"
  shows "sum_private (use_hp cntd) (perthread cntd) (unat cntid) acc =
           Returns (acc + stash_total (perthread cntd) (unat cntid))"
  using assms by (intro sum_private_eq) (simp_all add: wf_domain_def word_less_nat_alt)

lemma p64_counter_read_eq:
  assumes "wf_domain cntd" and "cntid \<noteq> P64_COUNTER_INVALID" and "cntid < ncounters cntd"
  shows "p64_counter_read cntd cntid =
           Some (Returns (shared cntd ! unat cntid + stash_total (perthread cntd) (unat cntid), []))"
proof -
  have "read_loop (\<lambda>k c. c) 0 cntd (unat cntid) =
          Some (Returns (shared cntd ! unat cntid + stash_total (perthread cntd) (unat cntid),
                         Suc 0))"
    using valid_id_less [OF assms(3,1)] sum_private_wf [OF assms(1,3)]
    by (intro read_loop_once) simp_all
  then show ?thesis using assms(2,3) by (simp add: p64_counter_read_def)
qed

lemma p64_counter_reset_eq:
  assumes "wf_domain cntd" and "cntid \<noteq> P64_COUNTER_INVALID" and "cntid < ncounters cntd"
  shows "p64_counter_reset cntd cntid =
           Some (Returns (cntd\<lparr>shared := (shared cntd)
                            [unat cntid := - stash_total (perthread cntd) (unat cntid)]\<rparr>, []))"
  using assms valid_id_less [OF assms(3,1)]
  by (simp add: p64_counter_reset_def p64_counter_read_eq)

lemma wf_domain_shared_update:
  "wf_domain cntd \<Longrightarrow> wf_domain (cntd\<lparr>shared := (shared cntd)[i := v]\<rparr>)"
  by (simp add: wf_domain_def nwords_of_def)

section \<open>Registration and the private arrays\<close>

lemma p64_counter_add_eq:
  assumes "count p \<noteq> 0" and "perthread_at cntd (tidx p) = Returns (Some c)"
    and "cntid \<noteq> P64_COUNTER_INVALID" and "cntid < ncounters cntd" and "unat cntid < length c"
  shows "p64_counter_add cntd p cntid v =
           Returns (cntd\<lparr>perthread := (perthread cntd)
                      [nat (sint (tidx p)) := Some (c[unat cntid := c ! unat cntid + v])]\<rparr>, [])"
  using assms by (simp add: p64_counter_add_def)

lemma p64_cntdomain_unregister_eq:
  assumes "count p \<noteq> 0"
    and "perthread_at cntd (tidx p) = Returns (Some c)"
    and "merge_counters 0 (unat (ncounters cntd)) c (shared cntd) = Returns (c1, sh1)"
    and "accepts k" and "\<forall>j<k. \<not> accepts j"
  shows "p64_cntdomain_unregister cntd p accepts =
           Some (Returns
             (if count p = 1 then \<lparr>tidx = - 1, count = 0\<rparr> else p\<lparr>count := count p - 1\<rparr>,
              cntd\<lparr>shared := sh1, perthread := (perthread cntd)[nat (sint (tidx p)) := None]\<rparr>,
              replicate k Doze @ [if use_hp cntd then Hazptr_retire c1 else Qsbr_retire c1] @
              (if count p = 1 then [Idx_free (tidx p)] else [])))"
  using assms retire_loop_first [OF assms(4,5)]
  by (simp add: p64_cntdomain_unregister_def Let_def)

lemma merge_counters_returns:
  "n \<le> length c \<Longrightarrow> n \<le> length sh \<Longrightarrow> \<exists>c1 sh1. merge_counters i n c sh = Returns (c1, sh1)"
proof (induction i n c sh rule: merge_counters.induct)
  case (1 i n counters sh)
  show ?case
  proof (cases "i < n")
    case False
    then show ?thesis by (subst merge_counters.simps) simp
  next
    case lt: True
    then have inb: "i < length counters" "i < length sh" using "1.prems" by simp_all
    show ?thesis
    proof (cases "(ucast (counters ! i) :: u32) = 0")
      case True
      have "\<exists>c1 sh1. merge_counters (Suc i) n counters sh = Returns (c1, sh1)"
        using lt inb True "1.prems" by (intro "1.IH"(2)) simp_all
      then show ?thesis using lt inb True by (subst merge_counters.simps) simp
    next
      case False
      have "\<exists>c1 sh1. merge_counters (Suc i) n (counters[i := 0])
          (sh[i := sh ! i + ucast (ucast (counters ! i) :: u32)]) = Returns (c1, sh1)"
        using lt inb False "1.prems" by (intro "1.IH"(1)) simp_all
      then show ?thesis using lt inb False by (subst merge_counters.simps) (simp add: Let_def)
    qed
  qed
qed

lemma stash_length_wf:
  assumes "wf_domain cntd" and "perthread_at cntd t = Returns (Some c)"
  shows "length c = unat (ncounters cntd)"
proof -
  have "Some c \<in> set (perthread cntd)"
    using assms(2) by (cases "0 \<le> sint t \<and> nat (sint t) < length (perthread cntd)")
      (auto simp: perthread_at_def dest: nth_mem)
  then show ?thesis
    using assms(1) by (auto simp: wf_domain_def list_all_iff stash_ok_def)
qed

lemma merge_counters_wf:
  assumes "wf_domain cntd" and "perthread_at cntd t = Returns (Some c)"
  shows "\<exists>c1 sh1. merge_counters 0 (unat (ncounters cntd)) c (shared cntd) = Returns (c1, sh1)"
  using stash_length_wf [OF assms] assms(1)
  by (intro merge_counters_returns) (simp_all add: wf_domain_def)

section \<open>The slot allocator: the bitmap\<close>

lemma takeWhile_stops_early:
  "x \<in> set xs \<Longrightarrow> \<not> P x \<Longrightarrow> length (takeWhile P xs) < length xs"
  by (induction xs) auto

lemma builtin_ctzl_props:
  assumes "w \<noteq> 0"
  shows "builtin_ctzl w < 64" and "bit w (builtin_ctzl w)" and "\<forall>j<builtin_ctzl w. \<not> bit w j"
proof -
  let ?P = "\<lambda>n. \<not> bit w n"
  let ?xs = "[0..<64] :: nat list"
  obtain m where m: "bit w m" using assms by (auto simp: bit_eq_iff)
  then have m64: "m < 64" by (auto dest: bit_imp_le_length)
  have "m \<in> set ?xs" using m64 by simp
  moreover have "\<not> ?P m" using m by simp
  ultimately have lt: "length (takeWhile ?P ?xs) < length ?xs"
    by (rule takeWhile_stops_early)
  then show c64: "builtin_ctzl w < 64" by (simp add: builtin_ctzl_def)
  have "\<not> ?P (?xs ! length (takeWhile ?P ?xs))"
    using lt by (rule nth_length_takeWhile)
  then show "bit w (builtin_ctzl w)" using c64 by (simp add: builtin_ctzl_def)
  show "\<forall>j<builtin_ctzl w. \<not> bit w j"
  proof (intro allI impI)
    fix j assume j: "j < builtin_ctzl w"
    then have "j < length (takeWhile ?P ?xs)" by (simp add: builtin_ctzl_def)
    then have "?P (takeWhile ?P ?xs ! j)" by (metis nth_mem set_takeWhileD)
    moreover have "takeWhile ?P ?xs ! j = ?xs ! j"
      using \<open>j < length (takeWhile ?P ?xs)\<close> by (rule takeWhile_nth)
    ultimately show "\<not> bit w j" using j c64 by simp
  qed
qed

lemma claim_bit_loaded:
  "claim_bit fr i (fr ! i) =
     (if fr ! i = 0 then None
      else Some (builtin_ctzl (fr ! i), fr[i := fr ! i AND NOT (push_bit (builtin_ctzl (fr ! i)) 1)]))"
  by (subst claim_bit.simps) (simp add: Let_def)


lemma is_free_bound: "is_free fr k \<Longrightarrow> k < 64 * length fr"
  by (auto simp: is_free_def)

lemma is_free_clear_free: "is_free (clear_free fr m) k \<longleftrightarrow> is_free fr k \<and> k \<noteq> m"
proof (cases "k div 64 = m div 64")
  case True
  have "k mod 64 = m mod 64 \<longleftrightarrow> k = m"
    using True by (metis div_mult_mod_eq)
  then show ?thesis
    using True
    by (auto simp: is_free_def clear_free_def bit_simps)
next
  case False
  then show ?thesis by (auto simp: is_free_def clear_free_def)
qed

lemma word_zero_no_bit: "(w :: u64) = 0 \<longleftrightarrow> (\<forall>b<64. \<not> bit w b)"
  by (auto simp: bit_eq_iff dest: bit_imp_le_length)

lemma word_zero_not_free:
  "j < length fr \<Longrightarrow> fr ! j = 0 \<longleftrightarrow> (\<forall>k. k div 64 = j \<longrightarrow> \<not> is_free fr k)"
proof
  assume "j < length fr" and "fr ! j = 0"
  then show "\<forall>k. k div 64 = j \<longrightarrow> \<not> is_free fr k" by (auto simp: is_free_def)
next
  assume j: "j < length fr" and h: "\<forall>k. k div 64 = j \<longrightarrow> \<not> is_free fr k"
  have "\<not> bit (fr ! j) b" if "b < 64" for b
    using h [rule_format, of "64 * j + b"] that j by (simp add: is_free_def)
  then show "fr ! j = 0" by (simp add: word_zero_no_bit)
qed

lemma claim_bit_zero: "claim_bit fr i 0 = None"
  by (subst claim_bit.simps) simp

lemma scan_words_none:
  "nwords \<le> length (free cntd) \<Longrightarrow> \<forall>j. i \<le> j \<and> j < nwords \<longrightarrow> free cntd ! j = 0 \<Longrightarrow>
   scan_words cntd nwords i = Returns (P64_COUNTER_INVALID, cntd)"
proof (induction cntd nwords i rule: scan_words.induct)
  case (1 cntd nwords i)
  show ?case
  proof (cases "i < nwords")
    case True
    then have z: "free cntd ! i = 0" using "1.prems" by simp
    have "scan_words cntd nwords (Suc i) = Returns (P64_COUNTER_INVALID, cntd)"
      using True "1.prems" z by (intro "1.IH") (simp_all add: claim_bit_zero)
    then show ?thesis
      using True "1.prems" z by (subst scan_words.simps) (simp add: claim_bit_zero)
  next
    case False
    then show ?thesis by (subst scan_words.simps) simp
  qed
qed

lemma scan_words_claim:
  assumes "nwords \<le> length (free cntd)" and "i \<le> j" and "j < nwords"
    and "free cntd ! j \<noteq> 0"
    and "\<forall>j'. i \<le> j' \<and> j' < j \<longrightarrow> free cntd ! j' = 0"
    and "unat (of_nat j * BITSPERWORD + of_nat (builtin_ctzl (free cntd ! j)) :: u32)
           < length (shared cntd)"
  shows "scan_words cntd nwords i =
           Returns (of_nat j * BITSPERWORD + of_nat (builtin_ctzl (free cntd ! j)),
             cntd\<lparr>shared := (shared cntd)
                     [unat (of_nat j * BITSPERWORD + of_nat (builtin_ctzl (free cntd ! j)) :: u32) := 0],
                   free := (free cntd)
                     [j := free cntd ! j AND NOT (push_bit (builtin_ctzl (free cntd ! j)) 1)]\<rparr>)"
  using assms
proof (induction cntd nwords i rule: scan_words.induct)
  case (1 cntd nwords i)
  show ?case
  proof (cases "i = j")
    case True
    then show ?thesis
      using "1.prems" by (subst scan_words.simps) (simp add: claim_bit_loaded Let_def)
  next
    case False
    then have lt: "i < j" using "1.prems" by simp
    then have z: "free cntd ! i = 0" using "1.prems" by simp
    have "scan_words cntd nwords (Suc i) =
           Returns (of_nat j * BITSPERWORD + of_nat (builtin_ctzl (free cntd ! j)),
             cntd\<lparr>shared := (shared cntd)
                     [unat (of_nat j * BITSPERWORD + of_nat (builtin_ctzl (free cntd ! j)) :: u32) := 0],
                   free := (free cntd)
                     [j := free cntd ! j AND NOT (push_bit (builtin_ctzl (free cntd ! j)) 1)]\<rparr>)"
      using lt "1.prems" z by (intro "1.IH") (simp_all add: claim_bit_zero)
    then show ?thesis
      using lt "1.prems" z by (subst scan_words.simps) (simp add: claim_bit_zero)
  qed
qed


lemma alloc_inv_is_free:
  assumes "alloc_inv cntd" and "is_free (free cntd) k"
  shows "0 < k" and "k < unat (ncounters cntd)"
proof -
  show "0 < k" using assms by (cases "k = 0") (auto simp: alloc_inv_def)
  have "k < 64 * length (free cntd)" using assms(2) by (rule is_free_bound)
  then show "k < unat (ncounters cntd)"
    using assms by (cases "k < unat (ncounters cntd)") (auto simp: alloc_inv_def list_all_iff)
qed

lemma nwords_of_eq:
  "unat (ncounters cntd) + 63 < 4294967296 \<Longrightarrow> nwords_of cntd = (unat (ncounters cntd) + 63) div 64"
  by (simp add: nwords_of_def BITSPERWORD_def unat_div unat_word_ariths)

lemma p64_counter_alloc_cases:
  assumes inv: "alloc_inv cntd"
  obtains (exhausted) "\<forall>k. \<not> is_free (free cntd) k"
      and "p64_counter_alloc cntd = Returns (P64_COUNTER_INVALID, cntd)"
  | (claimed) m where "is_free (free cntd) m" and "\<forall>k<m. \<not> is_free (free cntd) k"
      and "p64_counter_alloc cntd =
             Returns (of_nat m, cntd\<lparr>shared := (shared cntd)[m := 0],
                                     free := clear_free (free cntd) m\<rparr>)"
proof (cases "\<forall>j<length (free cntd). free cntd ! j = 0")
  case True
  have len: "nwords_of cntd = length (free cntd)" using inv by (simp add: alloc_inv_def wf_domain_def)
  have "\<not> is_free (free cntd) k" for k
    using True by (auto simp: is_free_def)
  moreover have "p64_counter_alloc cntd = Returns (P64_COUNTER_INVALID, cntd)"
    unfolding p64_counter_alloc_def nwords_of_def [symmetric] len
    using True by (intro scan_words_none) simp_all
  ultimately show ?thesis using exhausted by blast
next
  case False
  let ?fr = "free cntd"
  let ?Q = "\<lambda>j. j < length ?fr \<and> ?fr ! j \<noteq> 0"
  define j where "j = (LEAST j. ?Q j)"
  have ex: "\<exists>j. ?Q j" using False by blast
  have Qj: "?Q j" unfolding j_def using ex by (rule LeastI_ex)
  have least: "?fr ! j' = 0" if "j' < j" for j'
    using that not_less_Least [of j' ?Q] Qj by (auto simp: j_def)
  define b where "b = builtin_ctzl (?fr ! j)"
  define m where "m = 64 * j + b"
  have b64: "b < 64" and bitb: "bit (?fr ! j) b" and lowb: "\<forall>c<b. \<not> bit (?fr ! j) c"
    using builtin_ctzl_props [of "?fr ! j"] Qj by (simp_all add: b_def)
  have mdiv: "m div 64 = j" and mmod: "m mod 64 = b" using b64 by (simp_all add: m_def)
  have free_m: "is_free ?fr m" using Qj bitb by (simp add: is_free_def mdiv mmod)
  have below: "\<not> is_free ?fr k" if "k < m" for k
  proof (cases "k div 64 < j")
    case True
    then show ?thesis using least by (simp add: is_free_def)
  next
    case False
    have "k div 64 \<le> m div 64" using that by (simp add: div_le_mono)
    then have kj: "k div 64 = j" using False mdiv by simp
    have "k mod 64 < b"
      using that kj mdiv mmod by (metis add_less_cancel_left div_mult_mod_eq)
    then show ?thesis using lowb kj by (simp add: is_free_def)
  qed
  have mn: "m < unat (ncounters cntd)" using alloc_inv_is_free [OF inv free_m] by simp
  have m32: "m < 4294967296" using mn unsigned_less [of "ncounters cntd", where 'a = nat] by simp
  have id: "(of_nat j * BITSPERWORD + of_nat b :: u32) = of_nat m"
    by (simp add: m_def BITSPERWORD_def mult.commute)
  have um: "unat (of_nat m :: u32) = m" using m32 by (simp add: unat_of_nat)
  have len: "nwords_of cntd = length ?fr" using inv by (simp add: alloc_inv_def wf_domain_def)
  have sh: "length (shared cntd) = unat (ncounters cntd)"
    using inv by (simp add: alloc_inv_def wf_domain_def)
  have "scan_words cntd (length ?fr) 0 =
          Returns (of_nat j * BITSPERWORD + of_nat (builtin_ctzl (?fr ! j)),
             cntd\<lparr>shared := (shared cntd)
                     [unat (of_nat j * BITSPERWORD + of_nat (builtin_ctzl (?fr ! j)) :: u32) := 0],
                   free := ?fr [j := ?fr ! j AND NOT (push_bit (builtin_ctzl (?fr ! j)) 1)]\<rparr>)"
    using Qj least mn sh id um by (intro scan_words_claim) (simp_all add: b_def [symmetric])
  then have "p64_counter_alloc cntd =
      Returns (of_nat m, cntd\<lparr>shared := (shared cntd)[m := 0], free := clear_free ?fr m\<rparr>)"
    unfolding p64_counter_alloc_def nwords_of_def [symmetric] len
    by (simp add: b_def [symmetric] id um clear_free_def mdiv mmod)
  with free_m below show ?thesis using claimed by blast
qed


lemma is_free_set_free:
  "is_free (set_free fr m) k \<longleftrightarrow> is_free fr k \<or> (k = m \<and> m div 64 < length fr)"
proof (cases "k div 64 = m div 64")
  case True
  have "k mod 64 = m mod 64 \<longleftrightarrow> k = m"
    using True by (metis div_mult_mod_eq)
  then show ?thesis
    using True by (auto simp: is_free_def set_free_def bit_simps)
next
  case False
  then show ?thesis by (auto simp: is_free_def set_free_def)
qed

lemma alloc_inv_iff:
  "alloc_inv cntd \<longleftrightarrow>
     wf_domain cntd \<and> unat (ncounters cntd) + 63 < 4294967296 \<and>
     \<not> is_free (free cntd) 0 \<and> (\<forall>k. is_free (free cntd) k \<longrightarrow> k < unat (ncounters cntd))"
proof -
  have "list_all (\<lambda>k. \<not> is_free (free cntd) k) [unat (ncounters cntd)..<64 * length (free cntd)]
        \<longleftrightarrow> (\<forall>k. is_free (free cntd) k \<longrightarrow> k < unat (ncounters cntd))"
    using is_free_bound [of "free cntd"] by (fastforce simp: list_all_iff)
  then show ?thesis by (simp add: alloc_inv_def)
qed

lemma length_clear_free: "length (clear_free fr m) = length fr"
  by (simp add: clear_free_def)

lemma length_set_free: "length (set_free fr m) = length fr"
  by (simp add: set_free_def)

lemma alloc_inv_claimed:
  assumes "alloc_inv cntd"
  shows "alloc_inv (cntd\<lparr>shared := (shared cntd)[m := 0], free := clear_free (free cntd) m\<rparr>)"
  using assms
  by (simp add: alloc_inv_iff is_free_clear_free wf_domain_def nwords_of_def length_clear_free)

lemma valid_id_word_index:
  assumes "alloc_inv cntd" and "cntid < ncounters cntd"
  shows "unat cntid div 64 < length (free cntd)"
proof -
  have n: "unat (ncounters cntd) + 63 < 4294967296" using assms(1) by (simp add: alloc_inv_iff)
  have "length (free cntd) = (unat (ncounters cntd) + 63) div 64"
    using assms(1) nwords_of_eq [OF n] by (simp add: alloc_inv_iff wf_domain_def)
  moreover have "unat cntid < unat (ncounters cntd)" using assms(2) by (simp add: word_less_nat_alt)
  ultimately show ?thesis by simp
qed

lemma free_bit_test:
  "(w :: u64) AND 2 ^ b \<noteq> 0 \<longleftrightarrow> bit w b"
proof
  assume "bit w b"
  then have "bit (w AND 2 ^ b) b" by (auto simp: bit_simps dest: bit_imp_le_length)
  then show "w AND 2 ^ b \<noteq> 0" by auto
next
  assume nz: "w AND 2 ^ b \<noteq> 0"
  show "bit w b"
  proof (rule ccontr)
    assume "\<not> bit w b"
    then have "w AND 2 ^ b = 0" by (intro bit_eqI) (auto simp: bit_simps)
    with nz show False by simp
  qed
qed

lemma p64_counter_free_eq:
  assumes "alloc_inv cntd"
  shows "p64_counter_free cntd cntid =
           (if cntid = P64_COUNTER_INVALID \<or> ncounters cntd \<le> cntid
            then Returns (cntd, [Report ''invalid counter''])
            else if is_free (free cntd) (unat cntid)
            then Returns (cntd, [Report ''counter already free''])
            else Returns (cntd\<lparr>free := set_free (free cntd) (unat cntid)\<rparr>, []))"
proof (cases "cntid = P64_COUNTER_INVALID \<or> ncounters cntd \<le> cntid")
  case True
  then show ?thesis by (auto simp: p64_counter_free_def)
next
  case False
  then have lt: "cntid < ncounters cntd" by auto
  have i: "unat cntid div 64 < length (free cntd)"
    using assms lt by (rule valid_id_word_index)
  show ?thesis
    using False i
    by (simp add: p64_counter_free_def Let_def BITSPERWORD_def unat_div unat_mod free_bit_test
        is_free_def set_free_def)
qed

lemma alloc_inv_freed:
  assumes "alloc_inv cntd" and "cntid \<noteq> P64_COUNTER_INVALID" and "cntid < ncounters cntd"
  shows "alloc_inv (cntd\<lparr>free := set_free (free cntd) (unat cntid)\<rparr>)"
proof -
  have "0 < unat cntid" using assms(2) by (simp add: P64_COUNTER_INVALID_def unat_gt_0)
  moreover have "unat cntid < unat (ncounters cntd)" using assms(3) by (simp add: word_less_nat_alt)
  ultimately show ?thesis
    using assms(1)
    by (auto simp: alloc_inv_iff is_free_set_free wf_domain_def nwords_of_def length_set_free)
qed

section \<open>Domain creation: the marking loop\<close>

lemma mark_free_done: "\<not> b < n \<Longrightarrow> mark_free b n fr = Some (Returns fr)"
  by (subst mark_free.simps) simp

lemma is_free_fill_word:
  assumes "j < length fr" and "\<forall>k. is_free fr k \<longleftrightarrow> k < 64 * j"
  shows "is_free (fr[j := NOT 0]) k \<longleftrightarrow> k < 64 * j + 64"
proof (cases "k div 64 = j")
  case True
  then show ?thesis using assms(1) by (auto simp: is_free_def bit_simps)
next
  case False
  have "is_free (fr[j := NOT 0]) k \<longleftrightarrow> is_free fr k"
    using False by (auto simp: is_free_def)
  also have "\<dots> \<longleftrightarrow> k < 64 * j" using assms(2) by simp
  also have "\<dots> \<longleftrightarrow> k < 64 * j + 64" using False by (auto simp: less_mult_imp_div_less) 
  finally show ?thesis .
qed

lemma mark_free_fill:
  assumes "unat n + 63 < 4294967296" and "unat n \<le> 64 * length fr" and "b \<le> n"
    and "unat b + 64 \<le> unat n \<longrightarrow> 64 dvd unat b"
    and "\<forall>k. is_free fr k \<longleftrightarrow> k < unat b"
  shows "\<exists>fr'. mark_free b n (fr @ rest) = Some (Returns (fr' @ rest)) \<and> length fr' = length fr \<and>
               (\<forall>k. is_free fr' k \<longleftrightarrow> k < unat n)"
  using assms
proof (induction "unat n - unat b" arbitrary: b fr rule: less_induct)
  case less
  show ?case
  proof (cases "b < n")
    case False
    then have "b = n" using less.prems(3) by simp
    then show ?thesis using less.prems(5) by (simp add: mark_free_done)
  next
    case True
    then have bn: "unat b < unat n" by (simp add: word_less_nat_alt)
    have u64: "unat (b + 64) = unat b + 64"
      using bn less.prems(1) by (simp add: unat_word_ariths)
    have u1: "unat (b + 1) = unat b + 1"
      using bn less.prems(1) by (simp add: unat_word_ariths)
    have idx: "unat (b div 64) = unat b div 64" by (simp add: unat_div)
    have inb: "unat b div 64 < length fr" using bn less.prems(2) by simp
    then have inb': "unat b div 64 < length (fr @ rest)" by simp
    have upd: "(fr @ rest)[unat b div 64 := x] = fr[unat b div 64 := x] @ rest" for x
      using inb by (rule list_update_append1)
    have nth: "(fr @ rest) ! (unat b div 64) = fr ! (unat b div 64)"
      using inb by (simp add: nth_append)
    show ?thesis
    proof (cases "b + 64 \<le> n")
      case le: True
      then have le': "unat b + 64 \<le> unat n" by (simp add: word_le_nat_alt u64)
      then obtain j where j: "unat b = 64 * j" using less.prems(4) by (auto simp: dvd_def)
      let ?fr1 = "fr[unat b div 64 := NOT 0]"
      have "\<exists>fr'. mark_free (b + 64) n (?fr1 @ rest) = Some (Returns (fr' @ rest)) \<and>
               length fr' = length ?fr1 \<and> (\<forall>k. is_free fr' k \<longleftrightarrow> k < unat n)"
      proof (rule less.hyps)
        show "unat n - unat (b + 64) < unat n - unat b" using bn u64 by simp
        show "unat n + 63 < 4294967296" by fact
        show "unat n \<le> 64 * length ?fr1" using less.prems(2) by simp
        show "b + 64 \<le> n" by fact
        show "unat (b + 64) + 64 \<le> unat n \<longrightarrow> 64 dvd unat (b + 64)" using j u64 by simp
        show "\<forall>k. is_free ?fr1 k \<longleftrightarrow> k < unat (b + 64)"
          using is_free_fill_word [of j fr] inb less.prems(5) j u64 by simp
      qed
      then show ?thesis
        using True le inb'
        by (subst mark_free.simps) (simp add: BITSPERWORD_def idx upd del: length_append)
    next
      case gt: False
      let ?fr1 = "set_free fr (unat b)"
      have "\<exists>fr'. mark_free (b + 1) n (?fr1 @ rest) = Some (Returns (fr' @ rest)) \<and>
               length fr' = length ?fr1 \<and> (\<forall>k. is_free fr' k \<longleftrightarrow> k < unat n)"
      proof (rule less.hyps)
        show "unat n - unat (b + 1) < unat n - unat b" using bn u1 by simp
        show "unat n + 63 < 4294967296" by fact
        show "unat n \<le> 64 * length ?fr1" using less.prems(2) by (simp add: length_set_free)
        show "b + 1 \<le> n" using bn u1 by (simp add: word_le_nat_alt)
        have "unat n < unat b + 64" using gt by (simp add: word_le_nat_alt u64)
        then show "unat (b + 1) + 64 \<le> unat n \<longrightarrow> 64 dvd unat (b + 1)" using u1 by simp
        show "\<forall>k. is_free ?fr1 k \<longleftrightarrow> k < unat (b + 1)"
        proof
          fix k
          have "is_free ?fr1 k \<longleftrightarrow> is_free fr k \<or> k = unat b"
            using inb by (simp add: is_free_set_free)
          also have "\<dots> \<longleftrightarrow> k < unat b \<or> k = unat b" using less.prems(5) by simp
          also have "\<dots> \<longleftrightarrow> k < unat (b + 1)" unfolding u1 by linarith
          finally show "is_free ?fr1 k \<longleftrightarrow> k < unat (b + 1)" .
        qed
      qed
      then show ?thesis
        using True gt inb'
        by (subst mark_free.simps)
          (simp add: BITSPERWORD_def idx unat_mod set_free_def length_set_free upd nth
             del: length_append)
    qed
  qed
qed

lemma mark_free_short:
  assumes "64 * length fr < unat n" and "unat n + 63 < 4294967296" and "j \<le> length fr"
  shows "mark_free (of_nat (64 * j)) n fr = Some (Fault Out_of_bounds)"
  using assms
proof (induction "length fr - j" arbitrary: j fr rule: less_induct)
  case less
  let ?b = "of_nat (64 * j) :: u32"
  have "unat ?b = (64 * j) mod 2 ^ LENGTH(32)" by (rule unat_of_nat)
  also have "\<dots> = 64 * j" using less.prems by simp
  finally have ub: "unat ?b = 64 * j" .
  have bn: "?b < n" using less.prems ub by (simp add: word_less_nat_alt)
  have idx: "unat (?b div 64) = j" using ub by (simp add: unat_div)
  show ?case
  proof (cases "j < length fr")
    case True
    have u64: "unat (?b + 64) = 64 * j + 64"
      using less.prems True ub by (simp add: unat_word_ariths)
    have le: "?b + 64 \<le> n" using True less.prems u64 by (simp add: word_le_nat_alt)
    have "mark_free (of_nat (64 * Suc j)) n (fr[j := NOT 0]) = Some (Fault Out_of_bounds)"
      using True less.prems by (intro less.hyps) simp_all
    moreover have "(of_nat (64 * Suc j) :: u32) = ?b + 64" by simp
    ultimately have "mark_free (?b + 64) n (fr[j := NOT 0]) = Some (Fault Out_of_bounds)"
      by (simp add: add.commute)
    then show ?thesis
      using bn le True idx by (subst mark_free.simps) (simp add: BITSPERWORD_def)
  next
    case False
    then show ?thesis
      using bn idx by (subst mark_free.simps) (simp add: BITSPERWORD_def)
  qed
qed

text \<open>
  When \<open>ncounters + 63\<close> wraps, the test \<open>b + BITSPERWORD <= ncounters\<close> holds at every
  multiple of 64, the last one included, where the sum wraps to 0: the counter \<open>b\<close> runs
  through the multiples of 64 again and again, every word it writes lies in the block, and
  the loop is never left.
\<close>

lemma mark_free_wraps:
  assumes "mark_free b n fr = Some r"
  shows "\<not> (64 dvd unat b \<and> 4294967296 \<le> unat n + 63 \<and> 67108864 \<le> length fr)"
  using assms
proof (induction rule: mark_free.raw_induct [rotated 1, consumes 1, case_names step])
  case (step mark_free b n fr r)
  show ?case
  proof
    assume a: "64 dvd unat b \<and> 4294967296 \<le> unat n + 63 \<and> 67108864 \<le> length fr"
    have blt: "unat b < 4294967296" using unsigned_less [of b, where 'a = nat] by simp
    have bmax: "unat b \<le> 4294967232" using a blt by (auto simp: dvd_def)
    have bn: "b < n" using a bmax by (simp add: word_less_nat_alt)
    have idx: "unat (b div 64) = unat b div 64" by (simp add: unat_div)
    have "unat b div 64 \<le> 4294967232 div 64" using bmax by (rule div_le_mono)
    then have inb: "unat (b div 64) < length fr" using a idx by simp
    have u64: "unat (b + 64) = (unat b + 64) mod 4294967296" by (simp add: unat_word_ariths)
    have next64: "64 dvd unat (b + 64) \<and> unat (b + 64) \<le> unat n"
    proof (cases "unat b = 4294967232")
      case True
      then have "unat (b + 64) = 0" by (simp add: u64)
      then show ?thesis by simp
    next
      case False
      then have lt: "unat b + 64 \<le> 4294967232" using a bmax by (auto simp: dvd_def)
      then have "unat (b + 64) = unat b + 64" by (simp add: u64)
      then show ?thesis using a lt by simp
    qed
    then have le: "b + 64 \<le> n" by (simp add: word_le_nat_alt)
    have "mark_free (b + 64) n (fr[unat (b div 64) := NOT 0]) = Some r"
      using step(2) bn le inb by (simp add: BITSPERWORD_def)
    from step(1) [OF this] show False using a next64 by simp
  qed
qed

lemma mark_free_never_returns:
  assumes "4294967296 \<le> unat n + 63" and "67108864 \<le> length fr"
  shows "mark_free 0 n fr = None"
proof (cases "mark_free 0 n fr")
  case None
  then show ?thesis .
next
  case (Some r)
  from mark_free_wraps [OF this] assms show ?thesis by simp
qed

lemma unat_nwords:
  "unat ((n + BITSPERWORD - 1) div BITSPERWORD) = ((unat n + 63) mod 4294967296) div 64"
proof -
  have e: "n + BITSPERWORD - 1 = n + 63" by (simp add: BITSPERWORD_def)
  have "unat ((n + BITSPERWORD - 1) div BITSPERWORD) = unat (n + 63) div unat BITSPERWORD"
    unfolding unat_div e ..
  also have "unat BITSPERWORD = 64" by (simp add: BITSPERWORD_def)
  also have "unat (n + 63) = (unat n + 63) mod 4294967296" by (simp add: unat_word_ariths)
  finally show ?thesis .
qed

text \<open>
  For the capacities \<open>2^32 - 64, ..., 2^32 - 2\<close> the count does not wrap but the number of
  bitmap words does, to 0: the block holds the shared counters only, and creation never
  returns.
\<close>

lemma p64_cntdomain_alloc_diverges:
  assumes flags: "flags AND NOT VALID_FLAGS = 0"
    and cap: "4294967232 \<le> unat cap" "unat cap < 4294967295"
  shows "p64_cntdomain_alloc mt cap flags True = None"
proof -
  define n where "n = cap + 1"
  define nw where "nw = (n + BITSPERWORD - 1) div BITSPERWORD"
  have "unat n = (unat cap + 1) mod 4294967296" by (simp add: n_def unat_word_ariths)
  also have "\<dots> = unat cap + 1" using cap by (intro mod_less) linarith
  finally have un: "unat n = unat cap + 1" .
  have "(unat n + 63) mod 4294967296 = unat n + 63 - 4294967296"
    using un cap by (simp add: mod_if)
  then have unw: "unat nw = 0" using un cap by (simp add: nw_def unat_nwords)
  have "unat (nw + n) = (unat nw + unat n) mod 4294967296" by (simp add: unat_word_ariths)
  then have tot: "unat (nw + n) = unat n" using un cap unw by simp
  have "mark_free 0 n (replicate (unat (nw + n)) 0) = None"
    using un cap tot by (intro mark_free_never_returns) simp_all
  moreover have "p64_cntdomain_alloc mt cap flags True =
      (case mark_free 0 n (replicate (unat (nw + n)) 0) of
         None \<Rightarrow> None
       | Some (Fault f) \<Rightarrow> Some (Fault f)
       | Some (Returns fr) \<Rightarrow>
           if 0 < length fr then
             Some (Returns (Some \<lparr>ncounters = n, use_hp = (flags AND P64_COUNTER_F_HP \<noteq> 0),
                shared = drop (unat nw) (fr[0 := fr ! 0 AND NOT 1]),
                perthread = replicate mt None,
                free = take (unat nw) (fr[0 := fr ! 0 AND NOT 1])\<rparr>, []))
           else Some (Fault Out_of_bounds))"
    unfolding p64_cntdomain_alloc_def Let_def n_def nw_def
    by (simp only: flags if_True if_False simp_thms)
  ultimately show ?thesis by simp
qed

lemma p64_cntdomain_alloc_returns:
  assumes "p64_cntdomain_alloc mt cap flags ok = Some (Returns (Some d, evs))"
  shows "evs = [] \<and> alloc_inv d \<and> ncounters d = cap + 1 \<and> unat (ncounters d) = unat cap + 1 \<and>
         (\<forall>k. is_free (free d) k \<longleftrightarrow> 0 < k \<and> k \<le> unat cap) \<and>
         shared d = replicate (unat cap + 1) 0 \<and> perthread d = replicate mt None \<and>
         use_hp d = (flags AND P64_COUNTER_F_HP \<noteq> 0)"
proof -
  define n where "n = cap + 1"
  define nw where "nw = (n + BITSPERWORD - 1) div BITSPERWORD"
  define blk0 where "blk0 = replicate (unat (nw + n)) (0 :: u64)"
  have unw: "unat nw = ((unat n + 63) mod 4294967296) div 64"
    unfolding nw_def by (rule unat_nwords)
  have utot: "unat (nw + n) = (unat nw + unat n) mod 4294967296"
    by (simp add: unat_word_ariths)
  have nlt: "unat n < 4294967296" using unsigned_less [of n, where 'a = nat] by simp
  have flags: "flags AND NOT VALID_FLAGS = 0"
    using assms by (cases "flags AND NOT VALID_FLAGS = 0") (simp_all add: p64_cntdomain_alloc_def)
  have ok: ok
    using assms flags by (cases ok) (simp_all add: p64_cntdomain_alloc_def Let_def)
  have unfold: "p64_cntdomain_alloc mt cap flags ok =
      (case mark_free 0 n blk0 of
         None \<Rightarrow> None
       | Some (Fault f) \<Rightarrow> Some (Fault f)
       | Some (Returns fr) \<Rightarrow>
           if 0 < length fr then
             Some (Returns (Some \<lparr>ncounters = n, use_hp = (flags AND P64_COUNTER_F_HP \<noteq> 0),
                shared = drop (unat nw) (fr[0 := fr ! 0 AND NOT 1]),
                perthread = replicate mt None,
                free = take (unat nw) (fr[0 := fr ! 0 AND NOT 1])\<rparr>, []))
           else Some (Fault Out_of_bounds))"
    unfolding p64_cntdomain_alloc_def Let_def n_def nw_def blk0_def
    by (simp only: flags ok if_True if_False simp_thms)
  obtain blk where mark: "mark_free 0 n blk0 = Some (Returns blk)"
  proof (cases "mark_free 0 n blk0")
    case None
    then show ?thesis using assms unfold by simp
  next
    case (Some r)
    then show ?thesis using assms unfold that by (cases r) simp_all
  qed
  have pos: "0 < length blk"
    using assms unfold mark by (cases "0 < length blk") simp_all
  have d: "d = \<lparr>ncounters = n, use_hp = (flags AND P64_COUNTER_F_HP \<noteq> 0),
              shared = drop (unat nw) (blk[0 := blk ! 0 AND NOT 1]),
              perthread = replicate mt None,
              free = take (unat nw) (blk[0 := blk ! 0 AND NOT 1])\<rparr>"
    and evs: "evs = []"
    using assms unfold mark pos by simp_all
  have n0: "n \<noteq> 0"
  proof
    assume "n = 0"
    then have "blk = blk0" and "blk0 = []"
      using mark by (simp_all add: mark_free_done blk0_def utot unw)
    with pos show False by simp
  qed
  then have npos: "0 < unat n" by (simp add: unat_gt_0)
  have nowrap: "unat n + 63 < 4294967296"
  proof (rule ccontr)
    assume a: "\<not> unat n + 63 < 4294967296"
    then have "(unat n + 63) mod 4294967296 = unat n + 63 - 4294967296"
      using nlt by (simp add: mod_if)
    then have "unat nw = 0" using nlt by (simp add: unw)
    then have "length blk0 = unat n" using nlt by (simp add: blk0_def utot)
    then have "mark_free 0 n blk0 = None"
      using a by (intro mark_free_never_returns) simp_all
    then show False using mark by simp
  qed
  then have unw': "unat nw = (unat n + 63) div 64" by (simp add: unw)
  have fits: "unat nw + unat n < 4294967296"
  proof (rule ccontr)
    assume a: "\<not> unat nw + unat n < 4294967296"
    have nwlt: "unat nw < 4294967296" using unsigned_less [of nw, where 'a = nat] by simp
    have tot: "unat (nw + n) = unat nw + unat n - 4294967296"
      using a nwlt nlt by (simp add: utot mod_if)
    then have len: "length blk0 = unat nw + unat n - 4294967296"
      by (simp add: blk0_def)
    have "64 * length blk0 < unat n" using len nlt a unw' by simp
    then have "mark_free (of_nat (64 * 0)) n blk0 = Some (Fault Out_of_bounds)"
      using nowrap by (intro mark_free_short) simp_all
    then show False using mark by simp
  qed
  then have tot: "unat (nw + n) = unat nw + unat n" by (simp add: utot)
  have blk0: "blk0 = replicate (unat nw) 0 @ replicate (unat n) 0"
    by (simp add: blk0_def tot replicate_add)
  have "\<exists>fr'. mark_free 0 n (replicate (unat nw) 0 @ replicate (unat n) 0) =
                 Some (Returns (fr' @ replicate (unat n) 0)) \<and>
               length fr' = length (replicate (unat nw) (0 :: u64)) \<and>
               (\<forall>k. is_free fr' k \<longleftrightarrow> k < unat n)"
    using nowrap unw' by (intro mark_free_fill) (simp_all add: is_free_def)
  then obtain fr' where blk: "blk = fr' @ replicate (unat n) 0"
    and len: "length fr' = unat nw" and bits: "\<forall>k. is_free fr' k \<longleftrightarrow> k < unat n"
    using mark by (auto simp: blk0)
  have nwpos: "0 < unat nw" using unw' npos by simp
  have upd: "blk[0 := blk ! 0 AND NOT 1] = clear_free fr' 0 @ replicate (unat n) 0"
    using nwpos len by (simp add: blk clear_free_def list_update_append1 nth_append)
  have "free d = take (unat nw) (clear_free fr' 0 @ replicate (unat n) 0)"
    unfolding d upd by simp
  then have fd: "free d = clear_free fr' 0"
    using len by (simp add: length_clear_free)
  have "shared d = drop (unat nw) (clear_free fr' 0 @ replicate (unat n) 0)"
    unfolding d upd by simp
  then have sh: "shared d = replicate (unat n) 0"
    using len by (simp add: length_clear_free)
  have ucap: "unat n = unat cap + 1"
  proof (cases "unat cap + 1 < 4294967296")
    case True
    have "unat n = (unat cap + 1) mod 4294967296" by (simp add: n_def unat_word_ariths)
    also have "\<dots> = unat cap + 1" using True by (rule mod_less)
    finally show ?thesis .
  next
    case False
    have "unat cap < 4294967296" using unsigned_less [of cap, where 'a = nat] by simp
    then have "unat cap + 1 = 4294967296" using False by linarith
    moreover have "unat n = (unat cap + 1) mod 4294967296" by (simp add: n_def unat_word_ariths)
    ultimately have "unat n = 0" by (simp only: mod_self)
    with npos show ?thesis by simp
  qed
  have free_iff: "is_free (free d) k \<longleftrightarrow> 0 < k \<and> k \<le> unat cap" for k
  proof -
    have "is_free (free d) k \<longleftrightarrow> is_free fr' k \<and> k \<noteq> 0"
      unfolding fd by (rule is_free_clear_free)
    also have "\<dots> \<longleftrightarrow> k < unat n \<and> k \<noteq> 0" using bits by simp
    also have "\<dots> \<longleftrightarrow> 0 < k \<and> k \<le> unat cap" unfolding ucap by linarith
    finally show ?thesis .
  qed
  have d': "d = \<lparr>ncounters = n, use_hp = (flags AND P64_COUNTER_F_HP \<noteq> 0),
              shared = replicate (unat n) 0, perthread = replicate mt None,
              free = clear_free fr' 0\<rparr>"
    using d fd sh by simp
  have nwd: "nwords_of d = unat nw" by (simp add: nwords_of_def nw_def d')
  have "wf_domain d"
    unfolding wf_domain_def nwd
    by (simp add: d' len length_clear_free list_all_iff stash_ok_def)
  moreover have "unat (ncounters d) = unat cap + 1" using ucap by (simp add: d')
  ultimately have "alloc_inv d"
    using nowrap free_iff ucap by (simp add: alloc_inv_iff)
  then show ?thesis
    using evs free_iff ucap by (simp add: d' n_def)
qed

text \<open>Creation returns a domain for every capacity whose sizes fit into 32 bits.\<close>

lemma p64_cntdomain_alloc_succeeds:
  assumes flags: "flags AND NOT VALID_FLAGS = 0"
    and fits: "unat cap + 1 + (unat cap + 64) div 64 < 4294967296"
  shows "\<exists>cntd. p64_cntdomain_alloc mt cap flags True = Some (Returns (Some cntd, []))"
proof -
  define n where "n = cap + 1"
  define nw where "nw = (n + BITSPERWORD - 1) div BITSPERWORD"
  define blk0 where "blk0 = replicate (unat (nw + n)) (0 :: u64)"
  have "unat n = (unat cap + 1) mod 4294967296" by (simp add: n_def unat_word_ariths)
  also have "\<dots> = unat cap + 1" using fits by (intro mod_less) linarith
  finally have un: "unat n = unat cap + 1" .
  have "unat nw = ((unat n + 63) mod 4294967296) div 64" unfolding nw_def by (rule unat_nwords)
  also have "(unat n + 63) mod 4294967296 = unat n + 63" using fits un by (intro mod_less) linarith
  finally have unw: "unat nw = (unat n + 63) div 64" .
  have "unat (nw + n) = (unat nw + unat n) mod 4294967296" by (simp add: unat_word_ariths)
  also have "\<dots> = unat nw + unat n" using fits un unw by (intro mod_less) simp
  finally have tot: "unat (nw + n) = unat nw + unat n" .
  have blk0: "blk0 = replicate (unat nw) 0 @ replicate (unat n) 0"
    by (simp add: blk0_def tot replicate_add)
  have nowrap: "unat n + 63 < 4294967296" using fits un by linarith
  have "\<exists>fr'. mark_free 0 n (replicate (unat nw) 0 @ replicate (unat n) 0) =
                 Some (Returns (fr' @ replicate (unat n) 0)) \<and>
               length fr' = length (replicate (unat nw) (0 :: u64)) \<and>
               (\<forall>k. is_free fr' k \<longleftrightarrow> k < unat n)"
    using nowrap unw by (intro mark_free_fill) (simp_all add: is_free_def)
  then obtain fr' where mark: "mark_free 0 n blk0 = Some (Returns (fr' @ replicate (unat n) 0))"
    by (auto simp: blk0)
  have pos: "0 < length (fr' @ replicate (unat n) (0 :: u64))" using un by simp
  have "p64_cntdomain_alloc mt cap flags True =
      (case mark_free 0 n blk0 of
         None \<Rightarrow> None
       | Some (Fault f) \<Rightarrow> Some (Fault f)
       | Some (Returns fr) \<Rightarrow>
           if 0 < length fr then
             Some (Returns (Some \<lparr>ncounters = n, use_hp = (flags AND P64_COUNTER_F_HP \<noteq> 0),
                shared = drop (unat nw) (fr[0 := fr ! 0 AND NOT 1]),
                perthread = replicate mt None,
                free = take (unat nw) (fr[0 := fr ! 0 AND NOT 1])\<rparr>, []))
           else Some (Fault Out_of_bounds))"
    unfolding p64_cntdomain_alloc_def Let_def n_def nw_def blk0_def
    by (simp only: flags if_True if_False simp_thms)
  then show ?thesis using mark pos by (simp del: length_append)
qed

section \<open>Sequences of allocations and releases\<close>

lemma alloc_many_fresh:
  assumes "alloc_inv cntd"
    and "\<forall>k. is_free (free cntd) k \<longleftrightarrow> j < k \<and> k < unat (ncounters cntd)"
    and "j < unat (ncounters cntd)"
  shows "\<exists>cntd'. alloc_many (unat (ncounters cntd) - j) cntd =
           Returns (map of_nat [Suc j..<unat (ncounters cntd)] @ [P64_COUNTER_INVALID], cntd')"
  using assms
proof (induction "unat (ncounters cntd) - Suc j" arbitrary: j cntd)
  case 0
  then have j: "unat (ncounters cntd) = Suc j" by simp
  have none: "\<not> is_free (free cntd) k" for k using "0.prems"(2) j by simp
  from "0.prems"(1) have "p64_counter_alloc cntd = Returns (P64_COUNTER_INVALID, cntd)"
  proof (cases rule: p64_counter_alloc_cases)
    case exhausted
    then show ?thesis by simp
  next
    case (claimed m)
    then show ?thesis using none by simp
  qed
  then show ?case by (simp add: j)
next
  case (Suc d)
  let ?N = "unat (ncounters cntd)"
  have lt: "Suc j < ?N" using Suc.hyps(2) by simp
  have fj: "is_free (free cntd) (Suc j)" using Suc.prems(2) lt by simp
  from Suc.prems(1) obtain m where m: "is_free (free cntd) m" "\<forall>k<m. \<not> is_free (free cntd) k"
    and al: "p64_counter_alloc cntd =
      Returns (of_nat m, cntd\<lparr>shared := (shared cntd)[m := 0], free := clear_free (free cntd) m\<rparr>)"
  proof (cases rule: p64_counter_alloc_cases)
    case exhausted
    then show ?thesis using fj by simp
  next
    case (claimed m)
    then show ?thesis using that by blast
  qed
  have "j < m" using m(1) Suc.prems(2) by simp
  moreover have "\<not> Suc j < m" using m(2) fj by blast
  ultimately have meq: "m = Suc j" by simp
  let ?c1 = "cntd\<lparr>shared := (shared cntd)[m := 0], free := clear_free (free cntd) m\<rparr>"
  have "\<exists>cntd'. alloc_many (unat (ncounters ?c1) - Suc j) ?c1 =
           Returns (map of_nat [Suc (Suc j)..<unat (ncounters ?c1)] @ [P64_COUNTER_INVALID], cntd')"
  proof (rule Suc.hyps(1))
    show "d = unat (ncounters ?c1) - Suc (Suc j)" using Suc.hyps(2) by simp
    show "alloc_inv ?c1" using Suc.prems(1) by (rule alloc_inv_claimed)
    show "\<forall>k. is_free (free ?c1) k \<longleftrightarrow> Suc j < k \<and> k < unat (ncounters ?c1)"
    proof
      fix k
      have "is_free (free ?c1) k \<longleftrightarrow> is_free (free cntd) k \<and> k \<noteq> Suc j"
        by (simp add: is_free_clear_free meq)
      also have "\<dots> \<longleftrightarrow> (j < k \<and> k < ?N) \<and> k \<noteq> Suc j" using Suc.prems(2) by simp
      also have "\<dots> \<longleftrightarrow> Suc j < k \<and> k < unat (ncounters ?c1)" by (simp add: less_Suc_eq_le) linarith
      finally show "is_free (free ?c1) k \<longleftrightarrow> Suc j < k \<and> k < unat (ncounters ?c1)" .
    qed
    show "Suc j < unat (ncounters ?c1)" using lt by simp
  qed
  then obtain cntd' where rest: "alloc_many (?N - Suc j) ?c1 =
      Returns (map of_nat [Suc (Suc j)..<?N] @ [P64_COUNTER_INVALID], cntd')"
    by auto
  have cnt: "?N - j = Suc (?N - Suc j)" using lt by simp
  have lst: "[Suc j..<?N] = Suc j # [Suc (Suc j)..<?N]" using lt by (simp add: upt_conv_Cons)
  show ?case
    unfolding cnt lst using al rest by (simp add: meq)
qed


lemma unat_of_nat_small: "m < 4294967296 \<Longrightarrow> unat (of_nat m :: u32) = m"
  by (simp add: unat_of_nat)

lemma p64_counter_alloc_result:
  assumes inv: "alloc_inv cntd"
  shows "p64_counter_alloc cntd = Returns (P64_COUNTER_INVALID, cntd) \<and>
           (\<forall>k. \<not> is_free (free cntd) k) \<or>
         (\<exists>cntid. p64_counter_alloc cntd =
              Returns (cntid, cntd\<lparr>shared := (shared cntd)[unat cntid := 0],
                                   free := clear_free (free cntd) (unat cntid)\<rparr>) \<and>
            cntid \<noteq> P64_COUNTER_INVALID \<and> cntid < ncounters cntd \<and>
            is_free (free cntd) (unat cntid) \<and> (\<forall>k<unat cntid. \<not> is_free (free cntd) k))"
  using inv
proof (cases rule: p64_counter_alloc_cases)
  case exhausted
  then show ?thesis by simp
next
  case (claimed m)
  have m: "0 < m" "m < unat (ncounters cntd)" using alloc_inv_is_free [OF inv claimed(1)] by simp_all
  have "m < 4294967296" using m(2) unsigned_less [of "ncounters cntd", where 'a = nat] by simp
  then have um: "unat (of_nat m :: u32) = m" by (rule unat_of_nat_small)
  have "(of_nat m :: u32) \<noteq> 0" using um m(1) by (metis less_numeral_extra(3) unat_0)
  moreover have "(of_nat m :: u32) < ncounters cntd" using um m(2) by (simp add: word_less_nat_alt)
  ultimately show ?thesis
    using claimed um by (intro disjI2 exI [of _ "of_nat m"]) (simp add: P64_COUNTER_INVALID_def)
qed

lemma run_ops_inv:
  "alloc_inv cntd \<Longrightarrow>
   \<exists>cntd'. run_ops ops cntd = Returns cntd' \<and> alloc_inv cntd' \<and> ncounters cntd' = ncounters cntd"
proof (induction ops arbitrary: cntd)
  case Nil
  then show ?case by simp
next
  case (Cons x ops)
  show ?case
  proof (cases x)
    case Alloc
    from p64_counter_alloc_result [OF Cons.prems]
    obtain cntid cntd1 where al: "p64_counter_alloc cntd = Returns (cntid, cntd1)"
      and inv1: "alloc_inv cntd1" and n1: "ncounters cntd1 = ncounters cntd"
    proof (elim disjE conjE exE)
      assume "p64_counter_alloc cntd = Returns (P64_COUNTER_INVALID, cntd)"
      then show ?thesis using that Cons.prems by blast
    next
      fix cntid
      assume "p64_counter_alloc cntd =
          Returns (cntid, cntd\<lparr>shared := (shared cntd)[unat cntid := 0],
                               free := clear_free (free cntd) (unat cntid)\<rparr>)"
      then show ?thesis using that alloc_inv_claimed [OF Cons.prems] by simp
    qed
    from Cons.IH [OF inv1] show ?thesis using al n1 Alloc by simp
  next
    case (Free cntid)
    obtain cntd1 evs where fr: "p64_counter_free cntd cntid = Returns (cntd1, evs)"
      and inv1: "alloc_inv cntd1" and n1: "ncounters cntd1 = ncounters cntd"
    proof (cases "cntid = P64_COUNTER_INVALID \<or> ncounters cntd \<le> cntid")
      case True
      then show ?thesis using that Cons.prems by (simp add: p64_counter_free_eq)
    next
      case valid: False
      show ?thesis
      proof (cases "is_free (free cntd) (unat cntid)")
        case True
        then show ?thesis using that valid Cons.prems by (simp add: p64_counter_free_eq)
      next
        case False
        have "alloc_inv (cntd\<lparr>free := set_free (free cntd) (unat cntid)\<rparr>)"
          using valid Cons.prems by (intro alloc_inv_freed) auto
        then show ?thesis using that valid False Cons.prems by (simp add: p64_counter_free_eq)
      qed
    qed
    from Cons.IH [OF inv1] show ?thesis using fr n1 Free by simp
  qed
qed

lemma run_ops_keeps_used:
  assumes "alloc_inv cntd" and "\<not> is_free (free cntd) (unat cntid)" and "Free cntid \<notin> set ops"
    and "run_ops ops cntd = Returns cntd'"
  shows "\<not> is_free (free cntd') (unat cntid)"
  using assms
proof (induction ops arbitrary: cntd)
  case Nil
  then show ?case by simp
next
  case (Cons x ops)
  show ?case
  proof (cases x)
    case Alloc
    from p64_counter_alloc_result [OF Cons.prems(1)]
    obtain c cntd1 where al: "p64_counter_alloc cntd = Returns (c, cntd1)"
      and inv1: "alloc_inv cntd1" and used: "\<not> is_free (free cntd1) (unat cntid)"
    proof (elim disjE conjE exE)
      assume "p64_counter_alloc cntd = Returns (P64_COUNTER_INVALID, cntd)"
      then show ?thesis using that Cons.prems by blast
    next
      fix c
      assume "p64_counter_alloc cntd =
          Returns (c, cntd\<lparr>shared := (shared cntd)[unat c := 0],
                           free := clear_free (free cntd) (unat c)\<rparr>)"
      then show ?thesis
        using that alloc_inv_claimed [OF Cons.prems(1)] Cons.prems(2)
        by (simp add: is_free_clear_free)
    qed
    have "run_ops ops cntd1 = Returns cntd'" using Cons.prems(4) al Alloc by simp
    with Cons.IH [OF inv1 used] Cons.prems(3) show ?thesis by simp
  next
    case (Free c)
    then have ne: "c \<noteq> cntid" using Cons.prems(3) by auto
    then have une: "unat cntid \<noteq> unat c" by (simp add: word_unat_eq_iff)
    obtain cntd1 evs where fr: "p64_counter_free cntd c = Returns (cntd1, evs)"
      and inv1: "alloc_inv cntd1" and used: "\<not> is_free (free cntd1) (unat cntid)"
    proof (cases "c = P64_COUNTER_INVALID \<or> ncounters cntd \<le> c")
      case True
      then show ?thesis using that Cons.prems by (simp add: p64_counter_free_eq)
    next
      case valid: False
      show ?thesis
      proof (cases "is_free (free cntd) (unat c)")
        case True
        then show ?thesis using that valid Cons.prems by (simp add: p64_counter_free_eq)
      next
        case False
        have "alloc_inv (cntd\<lparr>free := set_free (free cntd) (unat c)\<rparr>)"
          using valid Cons.prems(1) by (intro alloc_inv_freed) auto
        then show ?thesis
          using that valid False Cons.prems(1,2) une
          by (simp add: p64_counter_free_eq is_free_set_free)
      qed
    qed
    have "run_ops ops cntd1 = Returns cntd'" using Cons.prems(4) fr Free by simp
    with Cons.IH [OF inv1 used] Cons.prems(3) show ?thesis by simp
  qed
qed

lemma distinct_map_of_nat:
  assumes "b \<le> 4294967296"
  shows "distinct (map of_nat [a..<b] :: u32 list)"
proof -
  have "inj_on (of_nat :: nat \<Rightarrow> u32) (set [a..<b])"
  proof (rule inj_onI)
    fix x y assume x: "x \<in> set [a..<b]" and y: "y \<in> set [a..<b]"
      and eq: "(of_nat x :: u32) = of_nat y"
    have "x < b" and "y < b" using x y by simp_all
    then have "x < 4294967296" and "y < 4294967296" using assms by linarith+
    then have "unat (of_nat x :: u32) = x" and "unat (of_nat y :: u32) = y"
      by (simp_all only: unat_of_nat_small)
    then show "x = y" using eq by metis
  qed
  moreover have "distinct [a..<b]" by (rule distinct_upt)
  ultimately show ?thesis unfolding distinct_map by (rule conjI [rotated])
qed

lemma p64_counter_alloc_no_counters:
  "ncounters cntd = 0 \<Longrightarrow> p64_counter_alloc cntd = Returns (P64_COUNTER_INVALID, cntd)"
  by (simp add: p64_counter_alloc_def BITSPERWORD_def scan_words.simps)

section \<open>The domain with five identifiers\<close>

lemma p64_cntdomain_register_first:
  assumes "count p = 0" and "perthread_at cntd idx = Returns None"
  shows "p64_cntdomain_register cntd p idx True =
           Returns (p\<lparr>tidx := idx, count := 1\<rparr>,
                    cntd\<lparr>perthread := (perthread cntd)
                           [nat (sint idx) := Some (replicate (unat (ncounters cntd)) 0)]\<rparr>, [])"
  using assms by (simp add: p64_cntdomain_register_def Let_def)

lemma stash_total_replicate: "stash_total (replicate n None) i = 0"
  by (induction n) (simp_all add: stash_total_def stash_value_def)

lemma stash_total_update:
  "k < length slots \<Longrightarrow>
   stash_total (slots[k := s]) i = stash_total slots i - stash_value i (slots ! k) + stash_value i s"
proof (induction slots arbitrary: k)
  case Nil
  then show ?case by simp
next
  case (Cons x slots)
  then show ?case by (cases k) (simp_all add: stash_total_def)
qed

lemma list_all_stash_ok_update:
  "list_all (stash_ok n) slots \<Longrightarrow> stash_ok n s \<Longrightarrow> list_all (stash_ok n) (slots[k := s])"
  by (induction slots arbitrary: k) (simp_all split: nat.split)

lemma stash_ok_replicate: "list_all (stash_ok n) (replicate m None)"
  by (simp add: list_all_iff stash_ok_def)

lemma wf_dom5:
  "length sh = 5 \<Longrightarrow> list_all (stash_ok 5) pt \<Longrightarrow> wf_domain (dom5 sh pt [w])"
  by (simp add: wf_domain_def dom5_def nwords_of_def BITSPERWORD_def)

lemma p64_counter_read_dom5:
  assumes "length sh = 5" and "list_all (stash_ok 5) pt"
  shows "p64_counter_read (dom5 sh pt [w]) 1 = Some (Returns (sh ! 1 + stash_total pt 1, []))"
proof -
  have "p64_counter_read (dom5 sh pt [w]) 1 =
          Some (Returns (shared (dom5 sh pt [w]) ! unat (1 :: u32) +
                         stash_total (perthread (dom5 sh pt [w])) (unat (1 :: u32)), []))"
    using wf_dom5 [OF assms]
    by (intro p64_counter_read_eq) (simp_all add: P64_COUNTER_INVALID_def dom5_def)
  then show ?thesis by (simp add: dom5_def)
qed

lemma p64_counter_reset_dom5:
  assumes "length sh = 5" and "list_all (stash_ok 5) pt"
  shows "p64_counter_reset (dom5 sh pt [w]) 1 =
           Some (Returns (dom5 (sh[1 := - stash_total pt 1]) pt [w], []))"
proof -
  let ?d = "dom5 sh pt [w]"
  have "p64_counter_reset ?d 1 =
          Some (Returns (?d\<lparr>shared := (shared ?d)
                  [unat (1 :: u32) := - stash_total (perthread ?d) (unat (1 :: u32))]\<rparr>, []))"
    using wf_dom5 [OF assms]
    by (intro p64_counter_reset_eq) (simp_all add: P64_COUNTER_INVALID_def dom5_def)
  then show ?thesis by (simp add: dom5_def)
qed

lemma ctz_30: "builtin_ctzl 30 = 1"
  by code_simp

lemma p64_counter_alloc_dom5:
  assumes "length sh = 5"
  shows "p64_counter_alloc (dom5 sh pt [30]) = Returns (1, dom5 (sh[1 := 0]) pt [28])"
proof -
  let ?d = "dom5 sh pt [30]"
  have "scan_words ?d 1 0 =
           Returns (of_nat 0 * BITSPERWORD + of_nat (builtin_ctzl (free ?d ! 0)),
             ?d\<lparr>shared := (shared ?d)
                     [unat (of_nat 0 * BITSPERWORD + of_nat (builtin_ctzl (free ?d ! 0)) :: u32) := 0],
                   free := (free ?d)
                     [0 := free ?d ! 0 AND NOT (push_bit (builtin_ctzl (free ?d ! 0)) 1)]\<rparr>)"
    using assms by (intro scan_words_claim) (simp_all add: dom5_def ctz_30)
  then show ?thesis
    by (simp add: p64_counter_alloc_def dom5_def BITSPERWORD_def ctz_30)
qed

lemma p64_counter_free_dom5:
  "p64_counter_free (dom5 sh pt [28]) 1 = Returns (dom5 sh pt [30], [])"
proof -
  have "\<not> (5 :: u32) \<le> 1" by code_simp
  then show ?thesis
    by (simp add: p64_counter_free_def dom5_def BITSPERWORD_def P64_COUNTER_INVALID_def Let_def)
qed

lemma p64_cntdomain_alloc_dom5:
  "p64_cntdomain_alloc mt 4 0 True =
     Some (Returns (Some (dom5 [0, 0, 0, 0, 0] (replicate mt None) [30]), []))"
proof -
  have "mark_free 0 5 [0, 0, 0, 0, 0, 0] = Some (Returns [31, 0, 0, 0, 0, 0])" by code_simp
  moreover have "replicate 6 (0 :: u64) = [0, 0, 0, 0, 0, 0]" by code_simp
  ultimately show ?thesis
    by (simp add: p64_cntdomain_alloc_def dom5_def BITSPERWORD_def VALID_FLAGS_def
        P64_COUNTER_F_HP_def)
qed


lemma perthread_at_dom5:
  "0 \<le> sint t \<Longrightarrow> nat (sint t) < length pt \<Longrightarrow>
   perthread_at (dom5 sh pt fr) t = Returns (pt ! nat (sint t))"
  by (simp add: perthread_at_def dom5_def)

section \<open>Creation establishes the invariants and every call keeps them\<close>

text \<open>
  The invariant of the allocator, well-formedness included, holds of every domain that
  creation returns and of the domain left by every call that returns, whatever the
  thread-local state of the caller and the answers of the collaborators.
\<close>

lemma alloc_inv_frame:
  assumes "alloc_inv cntd" and "ncounters c = ncounters cntd" and "free c = free cntd"
    and "length (shared c) = length (shared cntd)"
    and "list_all (stash_ok (unat (ncounters cntd))) (perthread c)"
  shows "alloc_inv c"
  using assms by (simp add: alloc_inv_iff wf_domain_def nwords_of_def)

lemma p64_cntdomain_register_shape:
  assumes "p64_cntdomain_register cntd p idx ok = Returns (p1, cntd1, evs)"
  shows "cntd1 = cntd \<or>
         (\<exists>t. cntd1 = cntd\<lparr>perthread := (perthread cntd)
                         [t := Some (replicate (unat (ncounters cntd)) 0)]\<rparr>)"
proof -
  define q where "q = (if count p = 0 then p\<lparr>tidx := idx, count := count p + 1\<rparr>
                else p\<lparr>count := count p + 1\<rparr>)"
  have unfold: "p64_cntdomain_register cntd p idx ok =
    (case perthread_at cntd (tidx q) of
           Fault f \<Rightarrow> Fault f
         | Returns (Some c) \<Rightarrow> Returns (q, cntd, [Report ''thread not registered''])
         | Returns None \<Rightarrow>
             if ok then
               Returns (q,
                 cntd\<lparr>perthread := (perthread cntd)
                         [nat (sint (tidx q)) := Some (replicate (unat (ncounters cntd)) 0)]\<rparr>,
                 [])
             else Returns (q, cntd, [Report ''failed to allocate private stash'']))"
    unfolding p64_cntdomain_register_def Let_def q_def ..
  show ?thesis
  proof (cases "perthread_at cntd (tidx q)")
    case (Fault f)
    then show ?thesis using assms unfold by simp
  next
    case (Returns slot)
    then show ?thesis using assms unfold by (cases slot; cases ok) auto
  qed
qed

lemma p64_cntdomain_unregister_shape:
  assumes "p64_cntdomain_unregister cntd p accepts = Some (Returns (p1, cntd1, evs))"
  shows "cntd1 = cntd \<or>
         (\<exists>c c1 sh1 t. merge_counters 0 (unat (ncounters cntd)) c (shared cntd) = Returns (c1, sh1) \<and>
            cntd1 = cntd\<lparr>shared := sh1, perthread := (perthread cntd)[t := None]\<rparr>)"
proof (cases "count p = 0")
  case True
  then show ?thesis using assms by (simp add: p64_cntdomain_unregister_def)
next
  case nz: False
  show ?thesis
  proof (cases "perthread_at cntd (tidx p)")
    case (Fault f)
    then show ?thesis using assms nz by (simp add: p64_cntdomain_unregister_def)
  next
    case (Returns slot)
    show ?thesis
    proof (cases slot)
      case None
      then show ?thesis using assms nz Returns by (simp add: p64_cntdomain_unregister_def)
    next
      case (Some c)
      show ?thesis
      proof (cases "merge_counters 0 (unat (ncounters cntd)) c (shared cntd)")
        case (Fault f)
        then show ?thesis using assms nz Returns Some by (simp add: p64_cntdomain_unregister_def)
      next
        case m: (Returns r)
        obtain c1 sh1 where r: "r = (c1, sh1)" by (cases r)
        show ?thesis
        proof (cases "retire_loop accepts 0")
          case None
          then show ?thesis
            using assms nz Returns Some m r by (simp add: p64_cntdomain_unregister_def)
        next
          case (Some k)
          then have "cntd1 = cntd\<lparr>shared := sh1,
              perthread := (perthread cntd)[nat (sint (tidx p)) := None]\<rparr>"
            using assms nz Returns \<open>slot = Some c\<close> m r
            by (simp add: p64_cntdomain_unregister_def Let_def split: if_splits)
          then show ?thesis using m r by blast
        qed
      qed
    qed
  qed
qed

lemma p64_counter_add_shape:
  assumes "p64_counter_add cntd p cntid v = Returns (cntd1, evs)"
  shows "cntd1 = cntd \<or>
         (\<exists>c. perthread_at cntd (tidx p) = Returns (Some c) \<and>
            cntd1 = cntd\<lparr>perthread := (perthread cntd)
                       [nat (sint (tidx p)) := Some (c[unat cntid := c ! unat cntid + v])]\<rparr>)"
proof (cases "count p = 0 \<or> cntid = P64_COUNTER_INVALID \<or> ncounters cntd \<le> cntid")
  case True
  then have "p64_counter_add cntd p cntid v = Returns (cntd, [Report ''thread not registered'']) \<or>
             p64_counter_add cntd p cntid v = Returns (cntd, [Report ''invalid counter''])"
    by (cases "count p = 0") (simp_all add: p64_counter_add_def)
  then show ?thesis using assms by auto
next
  case valid: False
  show ?thesis
  proof (cases "perthread_at cntd (tidx p)")
    case (Fault f)
    then show ?thesis using assms valid by (simp add: p64_counter_add_def)
  next
    case (Returns slot)
    then show ?thesis
      using assms valid by (cases slot) (simp_all add: p64_counter_add_def split: if_splits)
  qed
qed

lemma p64_counter_reset_shape:
  assumes "p64_counter_reset cntd cntid = Some (Returns (cntd1, evs))"
  shows "cntd1 = cntd \<or> (\<exists>v. cntd1 = cntd\<lparr>shared := (shared cntd)[unat cntid := v]\<rparr>)"
proof (cases "cntid = P64_COUNTER_INVALID \<or> ncounters cntd \<le> cntid")
  case True
  then have "p64_counter_reset cntd cntid = Some (Returns (cntd, [Report ''invalid counter'']))"
    by (simp add: p64_counter_reset_def)
  then show ?thesis using assms by simp
next
  case valid: False
  obtain r where r: "p64_counter_read cntd cntid = Some r"
    using p64_counter_read_returns by blast
  show ?thesis
  proof (cases r)
    case (Fault f)
    then show ?thesis using assms valid r by (simp add: p64_counter_reset_def)
  next
    case (Returns x)
    obtain cur es where "x = (cur, es)" by (cases x)
    then show ?thesis
      using assms valid r Returns by (simp add: p64_counter_reset_def split: if_splits) blast
  qed
qed

lemma alloc_inv_stashes: "alloc_inv cntd \<Longrightarrow> list_all (stash_ok (unat (ncounters cntd))) (perthread cntd)"
  by (simp add: alloc_inv_def wf_domain_def)

lemma merge_counters_length:
  "merge_counters i n c sh = Returns (c1, sh1) \<Longrightarrow> length c1 = length c \<and> length sh1 = length sh"
proof (induction i n c sh rule: merge_counters.induct)
  case (1 i n counters sh)
  show ?case
  proof (cases "i < n")
    case False
    then show ?thesis using "1.prems" by (subst (asm) merge_counters.simps) simp
  next
    case True
    note lt = this
    show ?thesis
    proof (cases "i < length counters")
      case False
      then show ?thesis using "1.prems" lt by (subst (asm) merge_counters.simps) simp
    next
      case inb: True
      show ?thesis
      proof (cases "(ucast (counters ! i) :: u32) = 0")
        case True
        then have "merge_counters (Suc i) n counters sh = Returns (c1, sh1)"
          using "1.prems" lt inb by (subst (asm) merge_counters.simps) simp
        then show ?thesis using "1.IH"(2) lt inb True by simp
      next
        case False
        show ?thesis
        proof (cases "i < length sh")
          case True
          then have "merge_counters (Suc i) n (counters[i := 0])
                       (sh[i := sh ! i + ucast (ucast (counters ! i) :: u32)]) = Returns (c1, sh1)"
            using "1.prems" lt inb False by (subst (asm) merge_counters.simps) (simp add: Let_def)
          then show ?thesis using "1.IH"(1) lt inb False True by simp
        next
          case nb: False
          then show ?thesis
            using "1.prems" lt inb False by (subst (asm) merge_counters.simps) (simp add: Let_def)
        qed
      qed
    qed
  qed
qed


lemma alloc_inv_created:
  "p64_cntdomain_alloc mt cap flags ok = Some (Returns (Some cntd, evs)) \<Longrightarrow> alloc_inv cntd"
  using p64_cntdomain_alloc_returns by blast

lemma alloc_inv_alloc:
  assumes "alloc_inv cntd" and "p64_counter_alloc cntd = Returns (cntid, cntd1)"
  shows "alloc_inv cntd1"
  using p64_counter_alloc_result [OF assms(1)]
proof (elim disjE conjE exE)
  assume "p64_counter_alloc cntd = Returns (P64_COUNTER_INVALID, cntd)"
  then show ?thesis using assms by simp
next
  fix c :: u32
  assume "p64_counter_alloc cntd =
      Returns (c, cntd\<lparr>shared := (shared cntd)[unat c := 0],
                       free := clear_free (free cntd) (unat c)\<rparr>)"
  then show ?thesis using assms(2) alloc_inv_claimed [OF assms(1)] by simp
qed

lemma alloc_inv_free:
  assumes "alloc_inv cntd" and "p64_counter_free cntd cntid = Returns (cntd1, evs)"
  shows "alloc_inv cntd1"
proof (cases "cntid = P64_COUNTER_INVALID \<or> ncounters cntd \<le> cntid")
  case True
  then show ?thesis using assms by (simp add: p64_counter_free_eq)
next
  case valid: False
  show ?thesis
  proof (cases "is_free (free cntd) (unat cntid)")
    case True
    then show ?thesis using assms valid by (simp add: p64_counter_free_eq)
  next
    case False
    have "alloc_inv (cntd\<lparr>free := set_free (free cntd) (unat cntid)\<rparr>)"
      using valid assms(1) by (intro alloc_inv_freed) auto
    then show ?thesis using assms valid False by (simp add: p64_counter_free_eq)
  qed
qed

lemma alloc_inv_register:
  assumes "alloc_inv cntd" and "p64_cntdomain_register cntd p idx ok = Returns (p1, cntd1, evs)"
  shows "alloc_inv cntd1"
  using p64_cntdomain_register_shape [OF assms(2)]
proof (elim disjE exE)
  assume "cntd1 = cntd"
  then show ?thesis using assms(1) by simp
next
  fix t
  assume c1: "cntd1 = cntd\<lparr>perthread := (perthread cntd)
                       [t := Some (replicate (unat (ncounters cntd)) 0)]\<rparr>"
  have "list_all (stash_ok (unat (ncounters cntd)))
          ((perthread cntd)[t := Some (replicate (unat (ncounters cntd)) 0)])"
    using alloc_inv_stashes [OF assms(1)]
    by (rule list_all_stash_ok_update) (simp add: stash_ok_def)
  then show ?thesis by (intro alloc_inv_frame [OF assms(1)]) (simp_all add: c1)
qed

lemma alloc_inv_unregister:
  assumes "alloc_inv cntd"
    and "p64_cntdomain_unregister cntd p accepts = Some (Returns (p1, cntd1, evs))"
  shows "alloc_inv cntd1"
  using p64_cntdomain_unregister_shape [OF assms(2)]
proof (elim disjE exE conjE)
  assume "cntd1 = cntd"
  then show ?thesis using assms(1) by simp
next
  fix c c1 sh1 t
  assume m: "merge_counters 0 (unat (ncounters cntd)) c (shared cntd) = Returns (c1, sh1)"
    and c1: "cntd1 = cntd\<lparr>shared := sh1, perthread := (perthread cntd)[t := None]\<rparr>"
  have "list_all (stash_ok (unat (ncounters cntd))) ((perthread cntd)[t := None])"
    using alloc_inv_stashes [OF assms(1)]
    by (rule list_all_stash_ok_update) (simp add: stash_ok_def)
  moreover have "length sh1 = length (shared cntd)" using merge_counters_length [OF m] by simp
  ultimately show ?thesis by (intro alloc_inv_frame [OF assms(1)]) (simp_all add: c1)
qed

lemma alloc_inv_add:
  assumes "alloc_inv cntd" and "p64_counter_add cntd p cntid v = Returns (cntd1, evs)"
  shows "alloc_inv cntd1"
  using p64_counter_add_shape [OF assms(2)]
proof (elim disjE exE conjE)
  assume "cntd1 = cntd"
  then show ?thesis using assms(1) by simp
next
  fix c
  assume sl: "perthread_at cntd (tidx p) = Returns (Some c)"
    and c1: "cntd1 = cntd\<lparr>perthread := (perthread cntd)
                   [nat (sint (tidx p)) := Some (c[unat cntid := c ! unat cntid + v])]\<rparr>"
  have "Some c \<in> set (perthread cntd)"
    using sl by (cases "0 \<le> sint (tidx p) \<and> nat (sint (tidx p)) < length (perthread cntd)")
      (auto simp: perthread_at_def dest: nth_mem)
  then have "stash_ok (unat (ncounters cntd)) (Some c)"
    using alloc_inv_stashes [OF assms(1)] by (simp add: list_all_iff)
  then have "stash_ok (unat (ncounters cntd)) (Some (c[unat cntid := c ! unat cntid + v]))"
    by (simp add: stash_ok_def)
  with alloc_inv_stashes [OF assms(1)]
  have "list_all (stash_ok (unat (ncounters cntd)))
      ((perthread cntd)[nat (sint (tidx p)) := Some (c[unat cntid := c ! unat cntid + v])])"
    by (rule list_all_stash_ok_update)
  then show ?thesis by (intro alloc_inv_frame [OF assms(1)]) (simp_all add: c1)
qed

lemma alloc_inv_reset:
  assumes "alloc_inv cntd" and "p64_counter_reset cntd cntid = Some (Returns (cntd1, evs))"
  shows "alloc_inv cntd1"
  using p64_counter_reset_shape [OF assms(2)]
proof (elim disjE exE)
  assume "cntd1 = cntd"
  then show ?thesis using assms(1) by simp
next
  fix v
  assume c1: "cntd1 = cntd\<lparr>shared := (shared cntd)[unat cntid := v]\<rparr>"
  show ?thesis
    using alloc_inv_stashes [OF assms(1)]
    by (intro alloc_inv_frame [OF assms(1)]) (simp_all add: c1)
qed

lemma alloc_inv_wf_domain: "alloc_inv cntd \<Longrightarrow> wf_domain cntd"
  by (simp add: alloc_inv_def)

section \<open>Unregistering and the value of a counter\<close>

lemma ucast_low_half: "(w :: u64) < 4294967296 \<Longrightarrow> (ucast (ucast w :: u32) :: u64) = w"
proof -
  assume "w < 4294967296"
  then have lt: "unat w < 4294967296" by (simp add: word_less_nat_alt)
  have "unat (ucast (ucast w :: u32) :: u64) = unat w"
    using lt by (simp add: unsigned_ucast_eq take_bit_eq_mod unat_word_ariths)
  then show ?thesis by (simp add: word_unat_eq_iff)
qed

lemma merge_counters_shared:
  assumes "merge_counters i n c sh = Returns (c1, sh1)"
  shows "sh1 ! j = (if i \<le> j \<and> j < n then sh ! j + ucast (ucast (c ! j) :: u32) else sh ! j)"
  using assms
proof (induction i n c sh rule: merge_counters.induct)
  case (1 i n counters sh)
  show ?case
  proof (cases "i < n")
    case False
    then show ?thesis using "1.prems" by (subst (asm) merge_counters.simps) auto
  next
    case True
    note lt = this
    show ?thesis
    proof (cases "i < length counters")
      case False
      then show ?thesis using "1.prems" lt by (subst (asm) merge_counters.simps) simp
    next
      case inb: True
      show ?thesis
      proof (cases "(ucast (counters ! i) :: u32) = 0")
        case True
        then have "merge_counters (Suc i) n counters sh = Returns (c1, sh1)"
          using "1.prems" lt inb by (subst (asm) merge_counters.simps) simp
        then have "sh1 ! j = (if Suc i \<le> j \<and> j < n
              then sh ! j + ucast (ucast (counters ! j) :: u32) else sh ! j)"
          using "1.IH"(2) lt inb True by simp
        then show ?thesis using True lt by (cases "j = i") auto
      next
        case False
        show ?thesis
        proof (cases "i < length sh")
          case True
          let ?c = "counters[i := 0]" and ?s = "sh[i := sh ! i + ucast (ucast (counters ! i) :: u32)]"
          have "merge_counters (Suc i) n ?c ?s = Returns (c1, sh1)"
            using "1.prems" lt inb False True by (subst (asm) merge_counters.simps) (simp add: Let_def)
          then have "sh1 ! j = (if Suc i \<le> j \<and> j < n
              then ?s ! j + ucast (ucast (?c ! j) :: u32) else ?s ! j)"
            using "1.IH"(1) lt inb False True by simp
          then show ?thesis using True lt by (cases "j = i") auto
        next
          case nb: False
          then show ?thesis
            using "1.prems" lt inb False by (subst (asm) merge_counters.simps) (simp add: Let_def)
        qed
      qed
    qed
  qed
qed


lemma perthread_at_slot:
  assumes "perthread_at cntd t = Returns (Some c)"
  shows "nat (sint t) < length (perthread cntd) \<and> perthread cntd ! nat (sint t) = Some c"
  using assms
  by (cases "0 \<le> sint t \<and> nat (sint t) < length (perthread cntd)") (simp_all add: perthread_at_def)

lemma wf_domain_frame:
  assumes "wf_domain cntd" and "ncounters c = ncounters cntd" and "free c = free cntd"
    and "length (shared c) = length (shared cntd)"
    and "list_all (stash_ok (unat (ncounters cntd))) (perthread c)"
  shows "wf_domain c"
  using assms by (simp add: wf_domain_def nwords_of_def)

section \<open>Reuse of a counter while a thread holds a private value\<close>

text \<open>
  For any number of thread slots, any two distinct thread indices within them and a
  reclamation engine that accepts at some attempt: allocation yields 1; after A adds 5
  and B adds 7 the read is 12; after A unregisters it is still 12; after the reset it is
  0, and so it is after the free; the alloc that returns 1 again stores 0 over the
  shared counter, and the read is 7.
\<close>

lemma reuse_scenario_any_threads:
  assumes ta: "0 \<le> sint ta" "nat (sint ta) < mt" and tb: "0 \<le> sint tb" "nat (sint tb) < mt"
    and ne: "ta \<noteq> tb" and acc: "accepts k" "\<forall>j<k. \<not> accepts j"
  shows "\<exists>d0 d1 pa d2 d3 pb d4 d5 pa' d6 evs d7 d8 d9.
    p64_cntdomain_alloc mt 4 0 True = Some (Returns (Some d0, [])) \<and>
    p64_counter_alloc d0 = Returns (1, d1) \<and>
    p64_cntdomain_register d1 pth_init ta True = Returns (pa, d2, []) \<and>
    p64_counter_add d2 pa 1 5 = Returns (d3, []) \<and>
    p64_cntdomain_register d3 pth_init tb True = Returns (pb, d4, []) \<and>
    p64_counter_add d4 pb 1 7 = Returns (d5, []) \<and>
    p64_counter_read d5 1 = Some (Returns (12, [])) \<and>
    p64_cntdomain_unregister d5 pa accepts = Some (Returns (pa', d6, evs)) \<and>
    p64_counter_read d6 1 = Some (Returns (12, [])) \<and>
    p64_counter_reset d6 1 = Some (Returns (d7, [])) \<and>
    p64_counter_read d7 1 = Some (Returns (0, [])) \<and>
    p64_counter_free d7 1 = Returns (d8, []) \<and>
    p64_counter_read d8 1 = Some (Returns (0, [])) \<and>
    p64_counter_alloc d8 = Returns (1, d9) \<and>
    p64_counter_read d9 1 = Some (Returns (7, []))"
proof -
  define A where "A = nat (sint ta)"
  define B where "B = nat (sint tb)"
  define z :: "u64 list" where "z = [0, 0, 0, 0, 0]"
  define P0 :: "u64 list option list" where "P0 = replicate mt None"
  define P1 where "P1 = P0[A := Some z]"
  define P2 where "P2 = P0[A := Some [0, 5, 0, 0, 0]]"
  define P3 where "P3 = P2[B := Some z]"
  define P4 where "P4 = P2[B := Some [0, 7, 0, 0, 0]]"
  define P5 where "P5 = P4[A := None]"
  define pa where "pa = \<lparr>tidx = ta, count = 1\<rparr>"
  define pb where "pb = \<lparr>tidx = tb, count = 1\<rparr>"
  have AB: "A \<noteq> B"
  proof
    assume "A = B"
    then have "sint ta = sint tb" using ta(1) tb(1) by (simp add: A_def B_def)
    then have "ta = tb" by (rule signed_word_eqI)
    then show False using ne by simp
  qed
  have len: "length P0 = mt" "A < mt" "B < mt" using ta(2) tb(2) by (simp_all add: P0_def A_def B_def)
  have lz: "length z = 5" by (simp add: z_def)
  have ok0: "list_all (stash_ok 5) P0" unfolding P0_def by (rule stash_ok_replicate)
  have ok2: "list_all (stash_ok 5) P2"
    unfolding P2_def using ok0 by (rule list_all_stash_ok_update) (simp add: stash_ok_def)
  have ok4: "list_all (stash_ok 5) P4"
    unfolding P4_def using ok2 by (rule list_all_stash_ok_update) (simp add: stash_ok_def)
  have ok5: "list_all (stash_ok 5) P5"
    unfolding P5_def using ok4 by (rule list_all_stash_ok_update) (simp add: stash_ok_def)
  have t0: "stash_total P0 1 = 0" unfolding P0_def by (rule stash_total_replicate)
  have t2: "stash_total P2 1 = 5"
    using len t0 by (simp add: P2_def stash_total_update stash_value_def P0_def)
  have t4: "stash_total P4 1 = 12"
    using len t2 AB by (simp add: P4_def stash_total_update stash_value_def P2_def P0_def)
  have t5: "stash_total P5 1 = 7"
    using len t4 AB by (simp add: P5_def stash_total_update stash_value_def P4_def P2_def P0_def)
  have s1: "p64_cntdomain_alloc mt 4 0 True = Some (Returns (Some (dom5 z P0 [30]), []))"
    unfolding z_def P0_def by (rule p64_cntdomain_alloc_dom5)
  have s2: "p64_counter_alloc (dom5 z P0 [30]) = Returns (1, dom5 z P0 [28])"
    using p64_counter_alloc_dom5 [OF lz, of P0] by (simp add: z_def)
  have s3: "p64_cntdomain_register (dom5 z P0 [28]) pth_init ta True =
              Returns (pa, dom5 z P1 [28], [])"
  proof -
    have "perthread_at (dom5 z P0 [28]) ta = Returns None"
      using ta len by (simp add: perthread_at_dom5 P0_def)
    moreover have "replicate (unat (5 :: u32)) (0 :: u64) = z" unfolding z_def by code_simp
    ultimately show ?thesis
      by (simp add: p64_cntdomain_register_first pth_init_def pa_def P1_def A_def dom5_def)
  qed
  have s4: "p64_counter_add (dom5 z P1 [28]) pa 1 5 = Returns (dom5 z P2 [28], [])"
  proof -
    have "perthread_at (dom5 z P1 [28]) (tidx pa) = Returns (Some z)"
      using ta len by (simp add: perthread_at_dom5 P1_def pa_def A_def)
    moreover have "(1 :: u32) < 5" by code_simp
    ultimately have "p64_counter_add (dom5 z P1 [28]) pa 1 5 =
        Returns ((dom5 z P1 [28])\<lparr>perthread := (perthread (dom5 z P1 [28]))
           [nat (sint (tidx pa)) := Some (z[unat (1 :: u32) := z ! unat (1 :: u32) + 5])]\<rparr>, [])"
      by (intro p64_counter_add_eq) (simp_all add: pa_def dom5_def P64_COUNTER_INVALID_def z_def)
    then show ?thesis by (simp add: dom5_def P1_def P2_def pa_def A_def z_def)
  qed
  have s5: "p64_cntdomain_register (dom5 z P2 [28]) pth_init tb True =
              Returns (pb, dom5 z P3 [28], [])"
  proof -
    have "perthread_at (dom5 z P2 [28]) tb = Returns None"
      using tb len AB by (simp add: perthread_at_dom5 P2_def P0_def B_def [symmetric])
    moreover have "replicate (unat (5 :: u32)) (0 :: u64) = z" unfolding z_def by code_simp
    ultimately show ?thesis
      by (simp add: p64_cntdomain_register_first pth_init_def pb_def P3_def B_def dom5_def)
  qed
  have s6: "p64_counter_add (dom5 z P3 [28]) pb 1 7 = Returns (dom5 z P4 [28], [])"
  proof -
    have "perthread_at (dom5 z P3 [28]) (tidx pb) = Returns (Some z)"
      using tb len by (simp add: perthread_at_dom5 P3_def P2_def pb_def B_def)
    moreover have "(1 :: u32) < 5" by code_simp
    ultimately have "p64_counter_add (dom5 z P3 [28]) pb 1 7 =
        Returns ((dom5 z P3 [28])\<lparr>perthread := (perthread (dom5 z P3 [28]))
           [nat (sint (tidx pb)) := Some (z[unat (1 :: u32) := z ! unat (1 :: u32) + 7])]\<rparr>, [])"
      by (intro p64_counter_add_eq) (simp_all add: pb_def dom5_def P64_COUNTER_INVALID_def z_def)
    then show ?thesis by (simp add: dom5_def P3_def P4_def pb_def B_def z_def)
  qed
  have s7: "p64_counter_read (dom5 z P4 [28]) 1 = Some (Returns (12, []))"
    using p64_counter_read_dom5 [OF lz ok4] t4 by (simp add: z_def)
  have s8: "p64_cntdomain_unregister (dom5 z P4 [28]) pa accepts =
              Some (Returns (\<lparr>tidx = - 1, count = 0\<rparr>, dom5 [0, 5, 0, 0, 0] P5 [28],
                replicate k Doze @ [Qsbr_retire z] @ [Idx_free ta]))"
  proof -
    let ?d = "dom5 z P4 [28]"
    have c: "count pa \<noteq> 0" by (simp add: pa_def)
    have sl: "perthread_at ?d (tidx pa) = Returns (Some [0, 5, 0, 0, 0])"
      using ta len AB by (simp add: perthread_at_dom5 P4_def P2_def pa_def A_def [symmetric])
    have "merge_counters 0 5 [0, 5, 0, 0, 0] [0, 0, 0, 0, 0] =
            Returns ([0, 0, 0, 0, 0], [0, 5, 0, 0, 0 :: u64])" by code_simp
    then have m: "merge_counters 0 (unat (ncounters ?d)) [0, 5, 0, 0, 0] (shared ?d) =
            Returns (z, [0, 5, 0, 0, 0])" by (simp add: dom5_def z_def)
    show ?thesis
      using p64_cntdomain_unregister_eq [OF c sl m acc]
      by (simp add: pa_def dom5_def P5_def A_def)
  qed
  have s9: "p64_counter_read (dom5 [0, 5, 0, 0, 0] P5 [28]) 1 = Some (Returns (12, []))"
    using p64_counter_read_dom5 [OF _ ok5, of "[0, 5, 0, 0, 0]"] t5 by simp
  have s10: "p64_counter_reset (dom5 [0, 5, 0, 0, 0] P5 [28]) 1 =
               Some (Returns (dom5 [0, - 7, 0, 0, 0] P5 [28], []))"
    using p64_counter_reset_dom5 [OF _ ok5, of "[0, 5, 0, 0, 0]"] t5 by simp
  have s11: "p64_counter_read (dom5 [0, - 7, 0, 0, 0] P5 [28]) 1 = Some (Returns (0, []))"
    using p64_counter_read_dom5 [OF _ ok5, of "[0, - 7, 0, 0, 0]"] t5 by simp
  have s12: "p64_counter_free (dom5 [0, - 7, 0, 0, 0] P5 [28]) 1 =
               Returns (dom5 [0, - 7, 0, 0, 0] P5 [30], [])"
    by (rule p64_counter_free_dom5)
  have s12r: "p64_counter_read (dom5 [0, - 7, 0, 0, 0] P5 [30]) 1 = Some (Returns (0, []))"
    using p64_counter_read_dom5 [OF _ ok5, of "[0, - 7, 0, 0, 0]"] t5 by simp
  have s13: "p64_counter_alloc (dom5 [0, - 7, 0, 0, 0] P5 [30]) = Returns (1, dom5 z P5 [28])"
    using p64_counter_alloc_dom5 [of "[0, - 7, 0, 0, 0]" P5] by (simp add: z_def)
  have s14: "p64_counter_read (dom5 z P5 [28]) 1 = Some (Returns (7, []))"
    using p64_counter_read_dom5 [OF lz ok5] t5 by (simp add: z_def)
  show ?thesis
    by (intro exI conjI)
      (rule s1, rule s2, rule s3, rule s4, rule s5, rule s6, rule s7, rule s8, rule s9,
       rule s10, rule s11, rule s12, rule s12r, rule s13, rule s14)
qed

section \<open>The claims\<close>

text \<open>
  C1 (the code departs from the claim). The claim: unregistering moves the full 64-bit
  value of every entry of the private array into the shared counter. The merge loop
  keeps the value in a \<open>uint32_t\<close>: a thread that added \<open>2^32 + 5\<close> to counter 1 leaves
  5 in the shared counter, its private entry is cleared, and the counter reads 5. A
  thread that added \<open>2^32\<close> leaves the shared counter as it was, and its array is retired
  with the entry still in it.
\<close>

theorem unregister_merge_truncates:
  "p64_counter_add demo_registered demo_thread 1 0x100000005 =
     Returns (demo_registered\<lparr>perthread := [Some [0, 0x100000005]]\<rparr>, []) \<and>
   p64_cntdomain_unregister (demo_registered\<lparr>perthread := [Some [0, 0x100000005]]\<rparr>)
       demo_thread (\<lambda>k. True) =
     Some (Returns (pth_init, demo_allocated\<lparr>shared := [0, 5]\<rparr>,
                    [Qsbr_retire [0, 0], Idx_free 0])) \<and>
   p64_counter_read (demo_allocated\<lparr>shared := [0, 5]\<rparr>) 1 = Some (Returns (5, [])) \<and>
   p64_cntdomain_unregister (demo_registered\<lparr>perthread := [Some [0, 0x100000000]]\<rparr>)
       demo_thread (\<lambda>k. True) =
     Some (Returns (pth_init, demo_allocated,
                    [Qsbr_retire [0, 0x100000000], Idx_free 0]))"
  by code_simp

text \<open>
  C2, as the claim states it, fails: a thread registers, adds 5 to counter 1 and
  registers again (the second call only reports an error and counts); the inner
  unregister merges the 5 into the shared counter, empties the slot and retires the
  array; the next add meets an empty slot, and the outer unregister only reports an
  error, with the count still 1 and the thread index not released.
\<close>

theorem inner_unregister_counterexample:
  "p64_counter_add demo_registered demo_thread 1 5 =
     Returns (demo_registered\<lparr>perthread := [Some [0, 5]]\<rparr>, []) \<and>
   p64_cntdomain_register (demo_registered\<lparr>perthread := [Some [0, 5]]\<rparr>) demo_thread 0 True =
     Returns (demo_thread\<lparr>count := 2\<rparr>, demo_registered\<lparr>perthread := [Some [0, 5]]\<rparr>,
              [Report ''thread not registered'']) \<and>
   p64_cntdomain_unregister (demo_registered\<lparr>perthread := [Some [0, 5]]\<rparr>)
       (demo_thread\<lparr>count := 2\<rparr>) (\<lambda>k. True) =
     Some (Returns (demo_thread, demo_allocated\<lparr>shared := [0, 5]\<rparr>, [Qsbr_retire [0, 0]])) \<and>
   p64_counter_add (demo_allocated\<lparr>shared := [0, 5]\<rparr>) demo_thread 1 1 = Fault Null_deref \<and>
   p64_cntdomain_unregister (demo_allocated\<lparr>shared := [0, 5]\<rparr>) demo_thread (\<lambda>k. True) =
     Some (Returns (demo_thread, demo_allocated\<lparr>shared := [0, 5]\<rparr>,
                    [Report ''thread not registered'']))"
  by code_simp

text \<open>
  C2, amended. On a well-formed domain, for a thread whose count is not 0 and whose slot
  holds its private array, every unregister, inner or outermost, runs the merge loop,
  empties the slot, retires the array (after \<open>k\<close> refused attempts) and decrements the
  count; the thread index is released exactly when the count was 1, so an inner
  unregister does not release it. Read remains valid at every depth: for a valid
  identifier it returns the shared counter plus the published private entries, before the
  unregister and after it, and the two values are the same when the private entry of the
  thread is below \<open>2^32\<close>. While the slot holds the array, an add with a valid identifier
  goes to that array, and the read after it returns the earlier value plus the amount
  added.
\<close>

theorem unregister_by_refcount:
  assumes "wf_domain cntd" and "count p \<noteq> 0"
    and "perthread_at cntd (tidx p) = Returns (Some c)"
    and "accepts k" and "\<forall>j<k. \<not> accepts j"
  shows "(\<exists>c1 sh1. merge_counters 0 (unat (ncounters cntd)) c (shared cntd) = Returns (c1, sh1) \<and>
           p64_cntdomain_unregister cntd p accepts =
             Some (Returns
               (if count p = 1 then \<lparr>tidx = - 1, count = 0\<rparr> else p\<lparr>count := count p - 1\<rparr>,
                cntd\<lparr>shared := sh1, perthread := (perthread cntd)[nat (sint (tidx p)) := None]\<rparr>,
                replicate k Doze @ [if use_hp cntd then Hazptr_retire c1 else Qsbr_retire c1] @
                (if count p = 1 then [Idx_free (tidx p)] else []))) \<and>
           (cntid \<noteq> P64_COUNTER_INVALID \<and> cntid < ncounters cntd \<longrightarrow>
              p64_counter_read
                (cntd\<lparr>shared := sh1,
                       perthread := (perthread cntd)[nat (sint (tidx p)) := None]\<rparr>) cntid =
                Some (Returns (sh1 ! unat cntid +
                  stash_total ((perthread cntd)[nat (sint (tidx p)) := None]) (unat cntid), [])) \<and>
              (c ! unat cntid < 4294967296 \<longrightarrow>
                 p64_counter_read
                   (cntd\<lparr>shared := sh1,
                          perthread := (perthread cntd)[nat (sint (tidx p)) := None]\<rparr>) cntid =
                   p64_counter_read cntd cntid))) \<and>
         (cntid \<noteq> P64_COUNTER_INVALID \<and> cntid < ncounters cntd \<longrightarrow>
          p64_counter_read cntd cntid =
            Some (Returns (shared cntd ! unat cntid +
                           stash_total (perthread cntd) (unat cntid), [])) \<and>
          p64_counter_add cntd p cntid v =
            Returns (cntd\<lparr>perthread := (perthread cntd)
                       [nat (sint (tidx p)) := Some (c[unat cntid := c ! unat cntid + v])]\<rparr>, []) \<and>
          p64_counter_read
            (cntd\<lparr>perthread := (perthread cntd)
                     [nat (sint (tidx p)) := Some (c[unat cntid := c ! unat cntid + v])]\<rparr>) cntid =
            Some (Returns (shared cntd ! unat cntid +
                           stash_total (perthread cntd) (unat cntid) + v, [])))"
proof -
  define t where "t = nat (sint (tidx p))"
  define i where "i = unat cntid"
  let ?slots = "perthread cntd"
  from merge_counters_wf [OF assms(1,3)] obtain c1 sh1
    where m: "merge_counters 0 (unat (ncounters cntd)) c (shared cntd) = Returns (c1, sh1)"
    by blast
  let ?d1 = "cntd\<lparr>shared := sh1, perthread := ?slots[t := None]\<rparr>"
  let ?d2 = "cntd\<lparr>perthread := ?slots[t := Some (c[i := c ! i + v])]\<rparr>"
  have len: "length c = unat (ncounters cntd)" using assms(1,3) by (rule stash_length_wf)
  have slot: "t < length ?slots" "?slots ! t = Some c"
    using perthread_at_slot [OF assms(3)] by (simp_all add: t_def)
  have stashes: "list_all (stash_ok (unat (ncounters cntd))) ?slots"
    using assms(1) by (simp add: wf_domain_def)
  have wf1: "wf_domain ?d1"
  proof (rule wf_domain_frame [OF assms(1)])
    show "length (shared ?d1) = length (shared cntd)" using merge_counters_length [OF m] by simp
    show "list_all (stash_ok (unat (ncounters cntd))) (perthread ?d1)"
      using list_all_stash_ok_update [OF stashes, of None t] by (simp add: stash_ok_def)
  qed simp_all
  have wf2: "wf_domain ?d2"
  proof (rule wf_domain_frame [OF assms(1)])
    show "list_all (stash_ok (unat (ncounters cntd))) (perthread ?d2)"
      using list_all_stash_ok_update [OF stashes, of "Some (c[i := c ! i + v])" t] len
      by (simp add: stash_ok_def)
  qed simp_all
  have unreg: "p64_cntdomain_unregister cntd p accepts =
             Some (Returns
               (if count p = 1 then \<lparr>tidx = - 1, count = 0\<rparr> else p\<lparr>count := count p - 1\<rparr>,
                ?d1,
                replicate k Doze @ [if use_hp cntd then Hazptr_retire c1 else Qsbr_retire c1] @
                (if count p = 1 then [Idx_free (tidx p)] else [])))"
    unfolding t_def by (rule p64_cntdomain_unregister_eq [OF assms(2,3) m assms(4,5)])
  have valid: "p64_counter_read ?d1 cntid =
                Some (Returns (sh1 ! i + stash_total (?slots[t := None]) i, [])) \<and>
              (c ! i < 4294967296 \<longrightarrow> p64_counter_read ?d1 cntid = p64_counter_read cntd cntid) \<and>
              p64_counter_read cntd cntid =
                Some (Returns (shared cntd ! i + stash_total ?slots i, [])) \<and>
              p64_counter_add cntd p cntid v = Returns (?d2, []) \<and>
              p64_counter_read ?d2 cntid =
                Some (Returns (shared cntd ! i + stash_total ?slots i + v, []))"
    if ok: "cntid \<noteq> P64_COUNTER_INVALID" "cntid < ncounters cntd"
  proof -
    have ilt: "i < length c" using ok(2) len by (simp add: i_def word_less_nat_alt)
    have r0: "p64_counter_read cntd cntid =
                Some (Returns (shared cntd ! i + stash_total ?slots i, []))"
      unfolding i_def using assms(1) ok by (rule p64_counter_read_eq)
    have "p64_counter_read ?d1 cntid =
            Some (Returns (shared ?d1 ! unat cntid + stash_total (perthread ?d1) (unat cntid), []))"
      using wf1 ok(1) by (rule p64_counter_read_eq) (simp add: ok(2))
    then have r1: "p64_counter_read ?d1 cntid =
                Some (Returns (sh1 ! i + stash_total (?slots[t := None]) i, []))"
      by (simp add: i_def)
    have "p64_counter_read ?d2 cntid =
            Some (Returns (shared ?d2 ! unat cntid + stash_total (perthread ?d2) (unat cntid), []))"
      using wf2 ok(1) by (rule p64_counter_read_eq) (simp add: ok(2))
    moreover have "stash_total (?slots[t := Some (c[i := c ! i + v])]) i = stash_total ?slots i + v"
      using slot ilt by (simp add: stash_total_update stash_value_def)
    ultimately have r2: "p64_counter_read ?d2 cntid =
                Some (Returns (shared cntd ! i + stash_total ?slots i + v, []))"
      by (simp add: i_def)
    have add: "p64_counter_add cntd p cntid v = Returns (?d2, [])"
      unfolding t_def i_def using assms(2,3) ok ilt
      by (intro p64_counter_add_eq) (simp_all add: i_def)
    have same: "p64_counter_read ?d1 cntid = p64_counter_read cntd cntid" if low: "c ! i < 4294967296"
    proof -
      have "sh1 ! i = shared cntd ! i + ucast (ucast (c ! i) :: u32)"
        using merge_counters_shared [OF m, of i] ilt len by simp
      then have "sh1 ! i = shared cntd ! i + c ! i" using low by (simp add: ucast_low_half)
      moreover have "stash_total (?slots[t := None]) i = stash_total ?slots i - c ! i"
        using slot by (simp add: stash_total_update stash_value_def)
      ultimately show ?thesis by (simp add: r0 r1)
    qed
    from r0 r1 r2 add same show ?thesis by blast
  qed
  show ?thesis
    using m unreg valid unfolding t_def i_def by blast
qed

theorem unregister_by_refcount_witness:
  "p64_cntdomain_unregister (demo_registered\<lparr>perthread := [Some [0, 5]]\<rparr>)
       (demo_thread\<lparr>count := 2\<rparr>) (\<lambda>k. 1 \<le> k) =
     Some (Returns (demo_thread, demo_allocated\<lparr>shared := [0, 5]\<rparr>,
                    [Doze, Qsbr_retire [0, 0]])) \<and>
   p64_counter_read (demo_allocated\<lparr>shared := [0, 5]\<rparr>) 1 =
     p64_counter_read (demo_registered\<lparr>perthread := [Some [0, 5]]\<rparr>) 1 \<and>
   p64_counter_read (demo_registered\<lparr>perthread := [Some [0, 5]]\<rparr>) 1 = Some (Returns (5, [])) \<and>
   p64_counter_add (demo_registered\<lparr>perthread := [Some [0, 5]]\<rparr>) (demo_thread\<lparr>count := 2\<rparr>) 1 7 =
     Returns (demo_registered\<lparr>perthread := [Some [0, 12]]\<rparr>, []) \<and>
   p64_counter_read (demo_registered\<lparr>perthread := [Some [0, 12]]\<rparr>) 1 = Some (Returns (12, []))"
proof -
  let ?d = "demo_registered\<lparr>perthread := [Some [0, 5]]\<rparr>" and ?p = "demo_thread\<lparr>count := 2\<rparr>"
  have h1: "wf_domain ?d" by code_simp
  have h2: "count ?p \<noteq> 0" by code_simp
  have h3: "perthread_at ?d (tidx ?p) = Returns (Some [0, 5])" by code_simp
  have h4: "(\<lambda>k::nat. 1 \<le> k) 1" by simp
  have h5: "\<forall>j<1. \<not> (\<lambda>k::nat. 1 \<le> k) j" by simp
  have m: "merge_counters 0 (unat (ncounters ?d)) [0, 5] (shared ?d) = Returns ([0, 0], [0, 5])"
    by code_simp
  have v: "(1 :: u32) \<noteq> P64_COUNTER_INVALID \<and> 1 < ncounters ?d" by code_simp
  have low: "[0, 5 :: u64] ! unat (1 :: u32) < 4294967296" by code_simp
  have u: "unat (1 :: u32) = 1" by simp
  show ?thesis
    using unregister_by_refcount [OF h1 h2 h3 h4 h5, of 1 7] m v low
    by (auto simp: demo_registered_def demo_thread_def demo_allocated_def
          stash_total_def stash_value_def)
qed

text \<open>
  C3 (the code departs from the claim). The claim: when the private array cannot be
  allocated in a thread's first register call, the count is what it was before, and a
  later add reports "thread not registered". \<open>p64_cntdomain_register\<close> counts before it
  allocates and returns on the failure without undoing it: the count is 1, the thread
  index is kept, and the add passes the count check and meets the empty slot.
\<close>

theorem failed_register_advances_count:
  "p64_cntdomain_register demo_allocated pth_init 0 False =
     Returns (demo_thread, demo_allocated, [Report ''failed to allocate private stash'']) \<and>
   count pth_init = 0 \<and> count demo_thread = 1 \<and>
   p64_counter_add demo_allocated demo_thread 1 5 = Fault Null_deref"
  by code_simp

text \<open>
  C4 (the code departs from the claim). The claim: in the scenario, the read after the
  free and the alloc that returns 1 again is 0. With two thread slots and the thread
  indices 0 and 1 the scenario runs as stated up to the reset, which leaves \<open>-7\<close> in the
  shared counter against the 7 in the private array of thread B, still registered; the
  read is 0, and it is still 0 after the free. The alloc that returns 1 again stores 0
  into the shared counter, the statement that is to hand out a counter that reads 0, and
  with it discards the \<open>-7\<close>: the read of the reused counter is 7. (For any number of
  thread slots and any two thread indices: lemma \<open>reuse_scenario_any_threads\<close>.)
\<close>

theorem counter_reuse_reads_seven:
  "p64_cntdomain_alloc 2 4 0 True = Some (Returns (Some (dom5 [0, 0, 0, 0, 0] [None, None] [30]), [])) \<and>
   p64_counter_alloc (dom5 [0, 0, 0, 0, 0] [None, None] [30]) =
     Returns (1, dom5 [0, 0, 0, 0, 0] [None, None] [28]) \<and>
   p64_cntdomain_register (dom5 [0, 0, 0, 0, 0] [None, None] [28]) pth_init 0 True =
     Returns (\<lparr>tidx = 0, count = 1\<rparr>, dom5 [0, 0, 0, 0, 0] [Some [0, 0, 0, 0, 0], None] [28], []) \<and>
   p64_counter_add (dom5 [0, 0, 0, 0, 0] [Some [0, 0, 0, 0, 0], None] [28]) \<lparr>tidx = 0, count = 1\<rparr> 1 5 =
     Returns (dom5 [0, 0, 0, 0, 0] [Some [0, 5, 0, 0, 0], None] [28], []) \<and>
   p64_cntdomain_register (dom5 [0, 0, 0, 0, 0] [Some [0, 5, 0, 0, 0], None] [28]) pth_init 1 True =
     Returns (\<lparr>tidx = 1, count = 1\<rparr>,
              dom5 [0, 0, 0, 0, 0] [Some [0, 5, 0, 0, 0], Some [0, 0, 0, 0, 0]] [28], []) \<and>
   p64_counter_add (dom5 [0, 0, 0, 0, 0] [Some [0, 5, 0, 0, 0], Some [0, 0, 0, 0, 0]] [28])
       \<lparr>tidx = 1, count = 1\<rparr> 1 7 =
     Returns (dom5 [0, 0, 0, 0, 0] [Some [0, 5, 0, 0, 0], Some [0, 7, 0, 0, 0]] [28], []) \<and>
   p64_counter_read (dom5 [0, 0, 0, 0, 0] [Some [0, 5, 0, 0, 0], Some [0, 7, 0, 0, 0]] [28]) 1 =
     Some (Returns (12, [])) \<and>
   p64_cntdomain_unregister (dom5 [0, 0, 0, 0, 0] [Some [0, 5, 0, 0, 0], Some [0, 7, 0, 0, 0]] [28])
       \<lparr>tidx = 0, count = 1\<rparr> (\<lambda>k. True) =
     Some (Returns (pth_init, dom5 [0, 5, 0, 0, 0] [None, Some [0, 7, 0, 0, 0]] [28],
                    [Qsbr_retire [0, 0, 0, 0, 0], Idx_free 0])) \<and>
   p64_counter_read (dom5 [0, 5, 0, 0, 0] [None, Some [0, 7, 0, 0, 0]] [28]) 1 =
     Some (Returns (12, [])) \<and>
   p64_counter_reset (dom5 [0, 5, 0, 0, 0] [None, Some [0, 7, 0, 0, 0]] [28]) 1 =
     Some (Returns (dom5 [0, - 7, 0, 0, 0] [None, Some [0, 7, 0, 0, 0]] [28], [])) \<and>
   p64_counter_read (dom5 [0, - 7, 0, 0, 0] [None, Some [0, 7, 0, 0, 0]] [28]) 1 =
     Some (Returns (0, [])) \<and>
   p64_counter_free (dom5 [0, - 7, 0, 0, 0] [None, Some [0, 7, 0, 0, 0]] [28]) 1 =
     Returns (dom5 [0, - 7, 0, 0, 0] [None, Some [0, 7, 0, 0, 0]] [30], []) \<and>
   p64_counter_read (dom5 [0, - 7, 0, 0, 0] [None, Some [0, 7, 0, 0, 0]] [30]) 1 =
     Some (Returns (0, [])) \<and>
   p64_counter_alloc (dom5 [0, - 7, 0, 0, 0] [None, Some [0, 7, 0, 0, 0]] [30]) =
     Returns (1, dom5 [0, 0, 0, 0, 0] [None, Some [0, 7, 0, 0, 0]] [28]) \<and>
   p64_counter_read (dom5 [0, 0, 0, 0, 0] [None, Some [0, 7, 0, 0, 0]] [28]) 1 =
     Some (Returns (7, [])) \<and>
   p64_counter_read (dom5 [0, 0, 0, 0, 0] [None, Some [0, 7, 0, 0, 0]] [28]) 1 \<noteq>
     Some (Returns (0, []))"
  by code_simp

text \<open>
  C5. On the domain that creation with capacity \<open>cap\<close> returns, \<open>cap + 1\<close> calls of
  \<open>p64_counter_alloc\<close> return the identifiers \<open>1, ..., cap\<close> in this order and then the
  invalid sentinel; the identifiers are pairwise distinct, none is the sentinel and none
  exceeds \<open>cap\<close>. On every domain that satisfies the invariant of the allocator, a
  successful call sets the shared counter of the identifier it returns to 0. (Creation
  returns a domain whenever \<open>cap + 1\<close> counters and their bitmap words are fewer than
  \<open>2^32\<close>: lemma \<open>p64_cntdomain_alloc_succeeds\<close>.)
\<close>

theorem alloc_until_exhausted:
  assumes "p64_cntdomain_alloc mt cap flags ok = Some (Returns (Some cntd, evs))"
  shows "(\<exists>cntd'. alloc_many (unat cap + 1) cntd =
            Returns (map of_nat [1..<unat cap + 1] @ [P64_COUNTER_INVALID], cntd')) \<and>
         distinct (map of_nat [1..<unat cap + 1] :: u32 list) \<and>
         (\<forall>cntid \<in> set (map of_nat [1..<unat cap + 1] :: u32 list).
            cntid \<noteq> P64_COUNTER_INVALID \<and> cntid \<le> cap) \<and>
         (\<forall>c cntid c1. alloc_inv c \<and> p64_counter_alloc c = Returns (cntid, c1) \<and>
            cntid \<noteq> P64_COUNTER_INVALID \<longrightarrow>
            unat cntid < length (shared c) \<and> shared c1 = (shared c)[unat cntid := 0])"
proof -
  from p64_cntdomain_alloc_returns [OF assms]
  have inv: "alloc_inv cntd" and n: "unat (ncounters cntd) = unat cap + 1"
    and fr: "\<forall>k. is_free (free cntd) k \<longleftrightarrow> 0 < k \<and> k \<le> unat cap"
    by blast+
  have fr': "\<forall>k. is_free (free cntd) k \<longleftrightarrow> 0 < k \<and> k < unat (ncounters cntd)"
    unfolding n using fr by (simp add: less_Suc_eq_le)
  have "\<exists>cntd'. alloc_many (unat (ncounters cntd) - 0) cntd =
           Returns (map of_nat [Suc 0..<unat (ncounters cntd)] @ [P64_COUNTER_INVALID], cntd')"
    using inv fr' n by (intro alloc_many_fresh) simp_all
  then have seq: "\<exists>cntd'. alloc_many (unat cap + 1) cntd =
            Returns (map of_nat [1..<unat cap + 1] @ [P64_COUNTER_INVALID], cntd')"
    by (simp add: n)
  have capb: "unat cap + 1 \<le> 4294967296"
    using unsigned_less [of cap, where 'a = nat] by simp
  have dist: "distinct (map of_nat [1..<unat cap + 1] :: u32 list)"
    using capb by (rule distinct_map_of_nat)
  have range: "cntid \<noteq> P64_COUNTER_INVALID \<and> cntid \<le> cap"
    if "cntid \<in> set (map of_nat [1..<unat cap + 1] :: u32 list)" for cntid
  proof -
    from that obtain k where k: "cntid = of_nat k" "1 \<le> k" "k \<le> unat cap" by auto
    then have uk: "unat cntid = k" using capb by (simp add: unat_of_nat_small)
    have "cntid \<noteq> 0" using uk k(2) by (metis not_one_le_zero unat_0)
    moreover have "cntid \<le> cap" using uk k(3) by (simp add: word_le_nat_alt)
    ultimately show ?thesis by (simp add: P64_COUNTER_INVALID_def)
  qed
  have reset: "unat cntid < length (shared c) \<and> shared c1 = (shared c)[unat cntid := 0]"
    if "alloc_inv c" and "p64_counter_alloc c = Returns (cntid, c1)"
      and "cntid \<noteq> P64_COUNTER_INVALID" for c cntid c1
  proof -
    have len: "length (shared c) = unat (ncounters c)"
      using that(1) by (simp add: alloc_inv_def wf_domain_def)
    from p64_counter_alloc_result [OF that(1)] that(2,3) len show ?thesis
      by (auto simp: word_less_nat_alt)
  qed
  from seq dist range reset show ?thesis by blast
qed

theorem alloc_until_exhausted_witness:
  "(\<exists>cntd'. alloc_many 3 small_fresh = Returns ([1, 2, P64_COUNTER_INVALID], cntd')) \<and>
   distinct [1, 2 :: u32]"
proof -
  have "[1..<unat (2 :: u32) + 1] = [1, 2]" by code_simp
  then show ?thesis
    using alloc_until_exhausted [OF small_create] by simp
qed

text \<open>
  C6. After any sequence \<open>ops\<close> of alloc and free calls on a created domain, bit 0 of the
  bitmap is clear and no bit at or beyond \<open>ncounters\<close> is set. The next alloc returns the
  sentinel (the value 0) only when no bit is set, and then changes nothing; otherwise it
  returns an identifier below \<open>ncounters\<close> whose bit was set and is now clear, and after
  any further calls \<open>ops'\<close> that do not free this identifier, an alloc does not return
  it again.
\<close>

theorem allocator_bitmap_invariant:
  assumes "p64_cntdomain_alloc mt cap flags ok = Some (Returns (Some cntd0, evs))"
  shows "\<exists>cntd. run_ops ops cntd0 = Returns cntd \<and>
           \<not> is_free (free cntd) 0 \<and>
           (\<forall>k. unat (ncounters cntd) \<le> k \<longrightarrow> \<not> is_free (free cntd) k) \<and>
           (\<exists>cntid cntd1. p64_counter_alloc cntd = Returns (cntid, cntd1) \<and>
              (cntid = P64_COUNTER_INVALID \<longrightarrow>
                 cntd1 = cntd \<and> (\<forall>k. \<not> is_free (free cntd) k)) \<and>
              (cntid \<noteq> P64_COUNTER_INVALID \<longrightarrow>
                 cntid < ncounters cntd \<and> is_free (free cntd) (unat cntid) \<and>
                 \<not> is_free (free cntd1) (unat cntid) \<and>
                 (Free cntid \<notin> set ops' \<longrightarrow>
                    (\<exists>cntd2 cntid2 cntd3. run_ops ops' cntd1 = Returns cntd2 \<and>
                       p64_counter_alloc cntd2 = Returns (cntid2, cntd3) \<and> cntid2 \<noteq> cntid))))"
proof -
  have inv0: "alloc_inv cntd0" using p64_cntdomain_alloc_returns [OF assms] by blast
  from run_ops_inv [OF inv0] obtain cntd where run: "run_ops ops cntd0 = Returns cntd"
    and inv: "alloc_inv cntd" by blast
  have bit0: "\<not> is_free (free cntd) 0" using inv by (simp add: alloc_inv_iff)
  have beyond: "\<forall>k. unat (ncounters cntd) \<le> k \<longrightarrow> \<not> is_free (free cntd) k"
    using inv by (simp add: alloc_inv_iff not_less [symmetric]) blast
  have "\<exists>cntid cntd1. p64_counter_alloc cntd = Returns (cntid, cntd1) \<and>
              (cntid = P64_COUNTER_INVALID \<longrightarrow>
                 cntd1 = cntd \<and> (\<forall>k. \<not> is_free (free cntd) k)) \<and>
              (cntid \<noteq> P64_COUNTER_INVALID \<longrightarrow>
                 cntid < ncounters cntd \<and> is_free (free cntd) (unat cntid) \<and>
                 \<not> is_free (free cntd1) (unat cntid) \<and>
                 (Free cntid \<notin> set ops' \<longrightarrow>
                    (\<exists>cntd2 cntid2 cntd3. run_ops ops' cntd1 = Returns cntd2 \<and>
                       p64_counter_alloc cntd2 = Returns (cntid2, cntd3) \<and> cntid2 \<noteq> cntid)))"
    using p64_counter_alloc_result [OF inv]
  proof (elim disjE conjE exE)
    assume "p64_counter_alloc cntd = Returns (P64_COUNTER_INVALID, cntd)"
      and "\<forall>k. \<not> is_free (free cntd) k"
    then show ?thesis by simp
  next
    fix cntid :: u32
    let ?c1 = "cntd\<lparr>shared := (shared cntd)[unat cntid := 0],
                     free := clear_free (free cntd) (unat cntid)\<rparr>"
    assume al: "p64_counter_alloc cntd = Returns (cntid, ?c1)"
      and valid: "cntid \<noteq> P64_COUNTER_INVALID" "cntid < ncounters cntd"
      and isf: "is_free (free cntd) (unat cntid)"
    have inv1: "alloc_inv ?c1" using inv by (rule alloc_inv_claimed)
    have used1: "\<not> is_free (free ?c1) (unat cntid)" by (simp add: is_free_clear_free)
    have later: "\<exists>cntd2 cntid2 cntd3. run_ops ops' ?c1 = Returns cntd2 \<and>
                       p64_counter_alloc cntd2 = Returns (cntid2, cntd3) \<and> cntid2 \<noteq> cntid"
      if nofree: "Free cntid \<notin> set ops'"
    proof -
      from run_ops_inv [OF inv1] obtain cntd2 where run2: "run_ops ops' ?c1 = Returns cntd2"
        and inv2: "alloc_inv cntd2" by blast
      have used2: "\<not> is_free (free cntd2) (unat cntid)"
        using inv1 used1 nofree run2 by (rule run_ops_keeps_used)
      from p64_counter_alloc_result [OF inv2]
      have "\<exists>cntid2 cntd3. p64_counter_alloc cntd2 = Returns (cntid2, cntd3) \<and> cntid2 \<noteq> cntid"
      proof (elim disjE conjE exE)
        assume "p64_counter_alloc cntd2 = Returns (P64_COUNTER_INVALID, cntd2)"
        then show ?thesis using valid(1) by auto
      next
        fix c2
        assume "p64_counter_alloc cntd2 =
            Returns (c2, cntd2\<lparr>shared := (shared cntd2)[unat c2 := 0],
                                free := clear_free (free cntd2) (unat c2)\<rparr>)"
          and "is_free (free cntd2) (unat c2)"
        then show ?thesis using used2 by auto
      qed
      with run2 show ?thesis by blast
    qed
    show ?thesis
      using al valid isf used1 later by (intro exI [of _ cntid] exI [of _ ?c1]) simp
  qed
  with run bit0 beyond show ?thesis by blast
qed

theorem allocator_bitmap_invariant_witness:
  "\<exists>cntd cntd1. run_ops [Alloc] small_fresh = Returns cntd \<and> \<not> is_free (free cntd) 0 \<and>
     p64_counter_alloc cntd = Returns (2, cntd1) \<and>
     (\<exists>cntd2 cntid2 cntd3. run_ops [Free 1] cntd1 = Returns cntd2 \<and>
        p64_counter_alloc cntd2 = Returns (cntid2, cntd3) \<and> cntid2 \<noteq> 2)"
proof -
  let ?c = "small_fresh\<lparr>free := [4]\<rparr>"
  have e1: "run_ops [Alloc] small_fresh = Returns ?c" by code_simp
  have e2: "p64_counter_alloc ?c = Returns (2, small_fresh\<lparr>free := [0]\<rparr>)" by code_simp
  have e3: "(2 :: u32) \<noteq> P64_COUNTER_INVALID" by code_simp
  have e4: "Free 2 \<notin> set [Free 1]" by simp
  show ?thesis
    using allocator_bitmap_invariant [OF small_create, of "[Alloc]" "[Free 1]"] e1 e2 e3 e4
    by auto
qed

text \<open>
  C7. On a well-formed domain and for a valid identifier, reset returns, and the read
  that follows it returns 0, whatever the shared counter and the private arrays hold.
  (Every domain that creation returns is well formed, and every call keeps it so: the
  lemmas \<open>alloc_inv_created\<close> to \<open>alloc_inv_wf_domain\<close>.)
\<close>

theorem read_after_reset_zero:
  assumes "wf_domain cntd" and "cntid \<noteq> P64_COUNTER_INVALID" and "cntid < ncounters cntd"
  shows "p64_counter_reset cntd cntid =
           Some (Returns (cntd\<lparr>shared := (shared cntd)
                            [unat cntid := - stash_total (perthread cntd) (unat cntid)]\<rparr>, [])) \<and>
         p64_counter_read
           (cntd\<lparr>shared := (shared cntd)
                   [unat cntid := - stash_total (perthread cntd) (unat cntid)]\<rparr>) cntid =
           Some (Returns (0, []))"
proof -
  let ?i = "unat cntid"
  let ?cntd1 = "cntd\<lparr>shared := (shared cntd)[?i := - stash_total (perthread cntd) ?i]\<rparr>"
  have "wf_domain ?cntd1" using assms(1) by (rule wf_domain_shared_update)
  then have "p64_counter_read ?cntd1 cntid = Some (Returns (0, []))"
    using assms(2,3) valid_id_less [OF assms(3,1)] by (simp add: p64_counter_read_eq)
  with p64_counter_reset_eq [OF assms] show ?thesis by simp
qed

theorem read_after_reset_zero_witness:
  "p64_counter_reset (demo_registered\<lparr>shared := [0, 3], perthread := [Some [0, 5]]\<rparr>) 1 =
     Some (Returns (demo_registered\<lparr>shared := [0, - 5], perthread := [Some [0, 5]]\<rparr>, [])) \<and>
   p64_counter_read (demo_registered\<lparr>shared := [0, - 5], perthread := [Some [0, 5]]\<rparr>) 1 =
     Some (Returns (0, []))"
proof -
  let ?d = "demo_registered\<lparr>shared := [0, 3], perthread := [Some [0, 5]]\<rparr>"
  have h1: "wf_domain ?d" by code_simp
  have h2: "(1 :: u32) \<noteq> P64_COUNTER_INVALID" by code_simp
  have h3: "1 < ncounters ?d" by code_simp
  show ?thesis
    using read_after_reset_zero [OF h1 h2 h3]
    by (simp add: demo_registered_def stash_total_def stash_value_def)
qed

text \<open>
  C8 (the code departs from the claim). The claim: in add, a nonzero count and a valid
  identifier imply that the thread's slot holds a private array. After a nested register
  and the inner unregister the count is 1 and the slot is empty; add passes both checks
  and dereferences the empty slot. (The register whose allocation failed, under C3,
  ends in the same state.)
\<close>

theorem add_null_stash_after_inner_unregister:
  "p64_cntdomain_register demo_registered demo_thread 0 True =
     Returns (demo_thread\<lparr>count := 2\<rparr>, demo_registered, [Report ''thread not registered'']) \<and>
   p64_cntdomain_unregister demo_registered (demo_thread\<lparr>count := 2\<rparr>) (\<lambda>k. True) =
     Some (Returns (demo_thread, demo_allocated, [Qsbr_retire [0, 0]])) \<and>
   count demo_thread \<noteq> 0 \<and> 1 \<noteq> P64_COUNTER_INVALID \<and> 1 < ncounters demo_allocated \<and>
   perthread_at demo_allocated (tidx demo_thread) = Returns None \<and>
   p64_counter_add demo_allocated demo_thread 1 5 = Fault Null_deref"
  by code_simp

text \<open>
  C9. When the other threads leave the shared entry of the counter in place and
  unchanged during the first traversal, the loop of read leaves after exactly one
  iteration with the shared value plus the private values; with no other thread at work,
  read returns this sum, and on every domain and identifier it returns.
\<close>

theorem read_loop_single_iteration:
  assumes "wf_domain cntd" and "cntid \<noteq> P64_COUNTER_INVALID" and "cntid < ncounters cntd"
    and "unat cntid < length (shared (env 0 cntd))"
    and "shared (env 0 cntd) ! unat cntid = shared cntd ! unat cntid"
  shows "read_loop env 0 cntd (unat cntid) =
           Some (Returns (shared cntd ! unat cntid + stash_total (perthread cntd) (unat cntid), 1)) \<and>
         p64_counter_read cntd cntid =
           Some (Returns (shared cntd ! unat cntid + stash_total (perthread cntd) (unat cntid), [])) \<and>
         (\<forall>c i. \<exists>r. p64_counter_read c i = Some r)"
proof -
  have "read_loop env 0 cntd (unat cntid) =
          Some (Returns (shared cntd ! unat cntid + stash_total (perthread cntd) (unat cntid),
                         Suc 0))"
    using valid_id_less [OF assms(3,1)] sum_private_wf [OF assms(1,3)] assms(4,5)
    by (intro read_loop_once) simp_all
  then show ?thesis
    using p64_counter_read_eq [OF assms(1,2,3)] p64_counter_read_returns by simp
qed

theorem read_loop_single_iteration_witness:
  "read_loop (\<lambda>k c. c\<lparr>perthread := [None]\<rparr>) 0
       (demo_registered\<lparr>shared := [0, 3], perthread := [Some [0, 5]]\<rparr>) (unat (1 :: u32)) =
     Some (Returns (8, 1)) \<and>
   p64_counter_read (demo_registered\<lparr>shared := [0, 3], perthread := [Some [0, 5]]\<rparr>) 1 =
     Some (Returns (8, []))"
proof -
  let ?d = "demo_registered\<lparr>shared := [0, 3], perthread := [Some [0, 5]]\<rparr>"
  let ?env = "\<lambda>(k :: nat) c :: cntdomain. c\<lparr>perthread := [None]\<rparr>"
  have h1: "wf_domain ?d" by code_simp
  have h2: "(1 :: u32) \<noteq> P64_COUNTER_INVALID" by code_simp
  have h3: "1 < ncounters ?d" by code_simp
  have h4: "unat (1 :: u32) < length (shared (?env 0 ?d))" by code_simp
  have h5: "shared (?env 0 ?d) ! unat (1 :: u32) = shared ?d ! unat (1 :: u32)" by code_simp
  show ?thesis
    using read_loop_single_iteration [where cntd = ?d and cntid = 1 and env = ?env] h1 h2 h3 h4 h5
    by (simp add: demo_registered_def stash_total_def stash_value_def)
qed

text \<open>
  C10 (the code departs from the claim). The claim: for capacity \<open>2^32 - 1\<close> the count
  wraps to 0 and creation succeeds. The count does wrap, the bitmap gets no word, and the
  last statement of \<open>p64_cntdomain_alloc\<close>, \<open>cntd->free[0] &= ~1\<close>, then writes a word that
  the block does not have.
\<close>

theorem create_wraps_out_of_bounds:
  "(0xFFFFFFFF :: u32) + 1 = 0 \<and>
   p64_cntdomain_alloc mt 0xFFFFFFFF 0 True = Some (Fault Out_of_bounds)"
  by (simp add: p64_cntdomain_alloc_def BITSPERWORD_def mark_free_done)

end
